theory Spec2Isabelle
  imports Main
begin

section \<open>Strings\<close>

text \<open>
  The ingestion script works on JavaScript strings, which are sequences of UTF-16 code
  units. A string is modelled as a HOL \<open>string\<close>; each \<open>char\<close> stands for one
  code unit below 256, and \<open>length\<close> is the script's \<open>.length\<close>. The model
  covers the texts made of such code units: the letters, digits and punctuation that the
  patterns name lie in that range, whereas the whitespace characters and line terminators
  of JavaScript above 255 (such as U+2028 or U+FEFF) are outside it.
\<close>

definition isWhitespace :: "char \<Rightarrow> bool" where
  \<comment> \<open>the regular-expression class \<open>\s\<close>, which is also what \<open>trim\<close> strips\<close>
  "isWhitespace c =
     (c = CHR 0x09 \<or> c = CHR 0x0A \<or> c = CHR 0x0B \<or> c = CHR 0x0C \<or> c = CHR 0x0D \<or>
      c = CHR 0x20 \<or> c = CHR 0xA0)"

definition isUpper :: "char \<Rightarrow> bool" where
  "isUpper c = (c \<in> set ''ABCDEFGHIJKLMNOPQRSTUVWXYZ'')"

definition isLower :: "char \<Rightarrow> bool" where
  "isLower c = (c \<in> set ''abcdefghijklmnopqrstuvwxyz'')"

definition isDigit :: "char \<Rightarrow> bool" where
  "isDigit c = (c \<in> set ''0123456789'')"

definition backslash :: char where
  "backslash = CHR 0x5C"

definition newline :: char where
  "newline = CHR 0x0A"

definition trimStart :: "string \<Rightarrow> string" where
  "trimStart s = dropWhile isWhitespace s"

definition trimEnd :: "string \<Rightarrow> string" where
  "trimEnd s = rev (dropWhile isWhitespace (rev s))"

definition trim :: "string \<Rightarrow> string" where
  "trim s = trimEnd (trimStart s)"

definition startsWith :: "string \<Rightarrow> string \<Rightarrow> bool" where
  \<comment> \<open>\<^verbatim>\<open>s.startsWith(p)\<close>, also a pattern \<^verbatim>\<open>/^(p)/\<close> for a fixed word \<open>p\<close>\<close>
  "startsWith s p = (take (length p) s = p)"

fun includesStr :: "string \<Rightarrow> string \<Rightarrow> bool" where
  \<comment> \<open>\<^verbatim>\<open>s.includes(p)\<close>\<close>
  "includesStr [] p = (p = [])"
| "includesStr (c # cs) p = (startsWith (c # cs) p \<or> includesStr cs p)"

definition truthy :: "string option \<Rightarrow> bool" where
  \<comment> \<open>a value that is \<open>null\<close> or a string, used as a condition\<close>
  "truthy v = (case v of None \<Rightarrow> False | Some s \<Rightarrow> s \<noteq> [])"

fun showNat :: "nat \<Rightarrow> string" where
  \<comment> \<open>a number inside a template literal: its decimal digits\<close>
  "showNat n =
     (if n < 10 then [''0123456789'' ! n]
      else showNat (n div 10) @ [''0123456789'' ! (n mod 10)])"

declare showNat.simps [simp del]

section \<open>Line classifier\<close>

definition shakespeareWorks :: "string list" where
  "shakespeareWorks =
    [''THE SONNETS'',
     ''ALL'S WELL THAT ENDS WELL'',
     ''THE TRAGEDY OF ANTONY AND CLEOPATRA'',
     ''AS YOU LIKE IT'',
     ''THE COMEDY OF ERRORS'',
     ''THE TRAGEDY OF CORIOLANUS'',
     ''CYMBELINE'',
     ''THE TRAGEDY OF HAMLET, PRINCE OF DENMARK'',
     ''THE FIRST PART OF KING HENRY THE FOURTH'',
     ''THE SECOND PART OF KING HENRY THE FOURTH'',
     ''THE LIFE OF KING HENRY THE FIFTH'',
     ''THE FIRST PART OF HENRY THE SIXTH'',
     ''THE SECOND PART OF KING HENRY THE SIXTH'',
     ''THE THIRD PART OF KING HENRY THE SIXTH'',
     ''KING HENRY THE EIGHTH'',
     ''THE LIFE AND DEATH OF KING JOHN'',
     ''THE TRAGEDY OF JULIUS CAESAR'',
     ''THE TRAGEDY OF KING LEAR'',
     ''LOVE'S LABOUR'S LOST'',
     ''THE TRAGEDY OF MACBETH'',
     ''MEASURE FOR MEASURE'',
     ''THE MERCHANT OF VENICE'',
     ''THE MERRY WIVES OF WINDSOR'',
     ''A MIDSUMMER NIGHT'S DREAM'',
     ''MUCH ADO ABOUT NOTHING'',
     ''THE TRAGEDY OF OTHELLO, THE MOOR OF VENICE'',
     ''PERICLES, PRINCE OF TYRE'',
     ''KING RICHARD THE SECOND'',
     ''KING RICHARD THE THIRD'',
     ''THE TRAGEDY OF ROMEO AND JULIET'',
     ''THE TAMING OF THE SHREW'',
     ''THE TEMPEST'',
     ''THE LIFE OF TIMON OF ATHENS'',
     ''THE TRAGEDY OF TITUS ANDRONICUS'',
     ''TROILUS AND CRESSIDA'',
     ''TWELFTH NIGHT; OR, WHAT YOU WILL'',
     ''THE TWO GENTLEMEN OF VERONA'',
     ''THE TWO NOBLE KINSMEN'',
     ''THE WINTER'S TALE'',
     ''A LOVER'S COMPLAINT'',
     ''THE PASSIONATE PILGRIM'',
     ''THE PHOENIX AND THE TURTLE'',
     ''THE RAPE OF LUCRECE'',
     ''VENUS AND ADONIS'']"

subsection \<open>Speaker cues\<close>

text \<open>
  \<open>speakerPattern\<close> is the match of \<^verbatim>\<open>/^([A-Z][A-Z\s,'.-]+?)\.?\s*$/\<close> and returns
  the captured group. The repetition inside the group is lazy: it is extended one
  character at a time, and stops at the first length after which the rest of the line
  matches \<^verbatim>\<open>\.?\s*$\<close>.
\<close>

definition speakerClass :: "char \<Rightarrow> bool" where
  "speakerClass c =
     (isUpper c \<or> isWhitespace c \<or> c = CHR '','' \<or> c = CHR 0x27 \<or> c = CHR ''.'' \<or>
      c = CHR ''-'')"

definition speakerTail :: "string \<Rightarrow> bool" where
  "speakerTail r =
     (case r of
        [] \<Rightarrow> True
      | c # cs \<Rightarrow> (c = CHR ''.'' \<and> list_all isWhitespace cs) \<or> list_all isWhitespace r)"

fun speakerLazy :: "string \<Rightarrow> string \<Rightarrow> string option" where
  "speakerLazy g [] = None"
| "speakerLazy g (c # cs) =
     (if speakerClass c
      then (if speakerTail cs then Some (g @ [c]) else speakerLazy (g @ [c]) cs)
      else None)"

definition speakerPattern :: "string \<Rightarrow> string option" where
  "speakerPattern s =
     (case s of
        [] \<Rightarrow> None
      | c # cs \<Rightarrow> if isUpper c then speakerLazy [c] cs else None)"

definition nonSpeakers :: "string list" where
  "nonSpeakers =
    [''ACT'', ''SCENE'', ''EPILOGUE'', ''PROLOGUE'', ''CHORUS'', ''CONTENTS'',
     ''THE END'', ''FINIS'', ''DRAMATIS PERSONAE'', ''PERSONS REPRESENTED'',
     ''INDUCTION'', ''ARGUMENT'', ''ENTER'', ''EXIT'', ''EXEUNT'', ''ALARUM'',
     ''FLOURISH'', ''SENNET'', ''HAUTBOYS'', ''TRUMPETS'', ''DRUMS'',
     ''SCENE I'', ''SCENE II'', ''SCENE III'', ''SCENE IV'', ''SCENE V'',
     ''ACT I'', ''ACT II'', ''ACT III'', ''ACT IV'', ''ACT V'']"

definition allOf :: "(char \<Rightarrow> bool) \<Rightarrow> string \<Rightarrow> bool" where
  \<comment> \<open>a pattern \<^verbatim>\<open>/^[class]+$/\<close>\<close>
  "allOf P s = (s \<noteq> [] \<and> list_all P s)"

definition removeTrailingPeriod :: "string \<Rightarrow> string" where
  \<comment> \<open>\<^verbatim>\<open>.replace(/\.$/, '')\<close>\<close>
  "removeTrailingPeriod s = (if s \<noteq> [] \<and> last s = CHR ''.'' then butlast s else s)"

definition isValidSpeaker :: "string \<Rightarrow> bool" where
  "isValidSpeaker speaker =
     (length speaker > 1 \<and>
      length speaker < 50 \<and>
      \<not> list_ex (startsWith speaker) nonSpeakers \<and>
      \<not> list_ex (startsWith speaker)
          [''ACT'', ''SCENE'', ''EPILOGUE'', ''PROLOGUE'', ''ENTER'', ''EXIT'', ''EXEUNT''] \<and>
      \<not> allOf isDigit speaker \<and>
      \<not> includesStr speaker ''SCENE'' \<and>
      \<not> includesStr speaker ''Contents'' \<and>
      \<not> allOf (\<lambda>c. c \<in> set ''IVX'') speaker)"

definition isSpeakerLine :: "string \<Rightarrow> string option" where
  "isSpeakerLine line =
     (let trimmedLine = trim line in
      case speakerPattern trimmedLine of
        None \<Rightarrow> None
      | Some g \<Rightarrow>
          (let speaker = trim g in
           if isValidSpeaker speaker then Some (removeTrailingPeriod speaker) else None))"

subsection \<open>Sonnet numbers\<close>

text \<open>
  The pattern of \<open>isSonnetNumber\<close> is the literal \<^verbatim>\<open>/^\\s*([0-9]+)\\s*$/\<close>. In a
  regular-expression literal \<^verbatim>\<open>\\\<close> is one backslash character, so the pattern
  reads: a backslash, any number of letters \<open>s\<close>, one or more digits (the group), a
  backslash, any number of letters \<open>s\<close>, end of input. The result is the group, or
  \<open>None\<close> for \<open>null\<close>.
\<close>

definition isSonnetNumber :: "string \<Rightarrow> string option" where
  "isSonnetNumber line =
     (case trim line of
        [] \<Rightarrow> None
      | c # r \<Rightarrow>
          if c \<noteq> backslash then None
          else
            (let r1 = dropWhile (\<lambda>x. x = CHR ''s'') r;
                 ds = takeWhile isDigit r1;
                 r2 = dropWhile isDigit r1
             in case r2 of
                  [] \<Rightarrow> None
                | d # r3 \<Rightarrow>
                    if ds \<noteq> [] \<and> d = backslash \<and> list_all (\<lambda>x. x = CHR ''s'') r3
                    then Some ds else None))"

section \<open>Chunks\<close>

text \<open>
  A chunk as the segmenter builds it; the field \<open>ident\<close> is the script's \<open>id\<close>. The
  cleaner adds \<open>textLength\<close> and \<open>wordCount\<close>.
\<close>

record chunk =
  ident :: nat
  work :: string
  speaker :: "string option"
  "text" :: string

record cleanedChunk = chunk +
  textLength :: nat
  wordCount :: nat

section \<open>Chunk splitter\<close>

text \<open>
  \<open>splitSentences\<close> is \<^verbatim>\<open>text.split(/(?<=[.!?])\s+/)\<close>: the text is scanned from the
  left; \<open>cur\<close> is the piece since the last separator and the flag says that the
  character just before the scan position is one of \<open>.\<close>, \<open>!\<close>, \<open>?\<close>. A separator is a
  maximal run of whitespace that starts right after such a character.
\<close>

definition isTerminator :: "char \<Rightarrow> bool" where
  "isTerminator c = (c = CHR ''.'' \<or> c = CHR ''!'' \<or> c = CHR ''?'')"

function splitSentences :: "string \<Rightarrow> bool \<Rightarrow> string \<Rightarrow> string list" where
  "splitSentences cur b [] = [cur]"
| "splitSentences cur b (c # cs) =
     (if b \<and> isWhitespace c
      then cur # splitSentences [] False (dropWhile isWhitespace cs)
      else splitSentences (cur @ [c]) (isTerminator c) cs)"
  by pat_completeness auto
termination
  by (relation "measure (\<lambda>(cur, b, t). length t)")
     (auto simp: less_Suc_eq_le length_dropWhile_le)

definition sentencesOf :: "string \<Rightarrow> string list" where
  "sentencesOf t = splitSentences [] False t"

definition partLabel :: "string option \<Rightarrow> nat \<Rightarrow> string option" where
  \<comment> \<open>\<^verbatim>\<open>chunk.speaker ? `${chunk.speaker} (Part ${partIndex})` : chunk.speaker\<close>\<close>
  "partLabel sp partIndex =
     (if truthy sp then Some (the sp @ '' (Part '' @ showNat partIndex @ '')'') else sp)"

text \<open>
  The loop over the sentences; the equation for the empty list is the code after the
  loop, which adds the final part.
\<close>

fun splitLoop ::
  "chunk \<Rightarrow> nat \<Rightarrow> string list \<Rightarrow> chunk list \<Rightarrow> string \<Rightarrow> nat \<Rightarrow> chunk list" where
  "splitLoop chunk maxSize [] chunks currentText partIndex =
     (if trim currentText \<noteq> []
      then chunks @
        [chunk\<lparr>text := trim currentText,
               speaker := (if partIndex > 1 then partLabel (speaker chunk) partIndex
                           else speaker chunk)\<rparr>]
      else chunks)"
| "splitLoop chunk maxSize (sentence # rest) chunks currentText partIndex =
     (if length currentText + length sentence > maxSize \<and> length currentText > 0
      then splitLoop chunk maxSize rest
             (chunks @
               [chunk\<lparr>text := trim currentText,
                      speaker := partLabel (speaker chunk) partIndex\<rparr>])
             (sentence @ '' '') (partIndex + 1)
      else splitLoop chunk maxSize rest chunks (currentText @ sentence @ '' '') partIndex)"

definition splitLargeChunk :: "chunk \<Rightarrow> nat \<Rightarrow> chunk list" where
  "splitLargeChunk chunk maxSize =
     (if length (text chunk) \<le> maxSize then [chunk]
      else splitLoop chunk maxSize (sentencesOf (text chunk)) [] [] 1)"

section \<open>Segmenter\<close>

text \<open>
  The state is the local variables of \<open>processShakespeareText\<close>; \<open>chunks\<close> is the array
  that the function returns. \<open>processLine\<close> is one turn of the loop over the lines, each
  \<open>continue\<close> of the script being a branch that returns the state.
\<close>

record state =
  chunks :: "chunk list"
  currentWork :: string
  currentSpeaker :: "string option"
  currentChunk :: string
  chunkId :: nat
  inSonnets :: bool
  sonnetNumber :: "string option"
  sonnetText :: string

definition initialState :: state where
  "initialState =
     \<lparr>chunks = [], currentWork = ''UNKNOWN'', currentSpeaker = None, currentChunk = [],
      chunkId = 0, inSonnets = False, sonnetNumber = None, sonnetText = []\<rparr>"

fun splitLines :: "string \<Rightarrow> string \<Rightarrow> string list" where
  \<comment> \<open>\<^verbatim>\<open>text.split('\n')\<close>, with the current line as accumulator\<close>
  "splitLines cur [] = [cur]"
| "splitLines cur (c # cs) =
     (if c = newline then cur # splitLines [] cs else splitLines (cur @ [c]) cs)"

definition saveCurrentChunk :: "state \<Rightarrow> state" where
  "saveCurrentChunk st =
     (if trim (currentChunk st) \<noteq> []
      then st\<lparr>chunks := chunks st @
                  splitLargeChunk
                    \<lparr>ident = chunkId st, work = currentWork st,
                     speaker = currentSpeaker st, text = trim (currentChunk st)\<rparr> 800,
              chunkId := chunkId st + 1\<rparr>
      else st)"

definition sonnetLabel :: "string option \<Rightarrow> string" where
  \<comment> \<open>\<^verbatim>\<open>`SONNET ${sonnetNumber}`\<close>\<close>
  "sonnetLabel n = ''SONNET '' @ (case n of None \<Rightarrow> ''null'' | Some d \<Rightarrow> d)"

definition pushSonnet :: "state \<Rightarrow> state" where
  "pushSonnet st =
     st\<lparr>chunks := chunks st @
           [\<lparr>ident = chunkId st, work = currentWork st,
             speaker = Some (sonnetLabel (sonnetNumber st)), text = trim (sonnetText st)\<rparr>],
        chunkId := chunkId st + 1\<rparr>"

definition saveFinalSonnet :: "state \<Rightarrow> state" where
  \<comment> \<open>\<^verbatim>\<open>if (inSonnets && sonnetText.trim()) { ... }\<close>\<close>
  "saveFinalSonnet st =
     (if inSonnets st \<and> trim (sonnetText st) \<noteq> [] then pushSonnet st else st)"

definition findWork :: "string \<Rightarrow> string option" where
  "findWork trimmedLine =
     find (\<lambda>w. trimmedLine = w \<or> includesStr trimmedLine w) shakespeareWorks"

definition stageKeywords :: "string list" where
  "stageKeywords =
     [''ACT'', ''SCENE'', ''EPILOGUE'', ''PROLOGUE'', ''ENTER'', ''EXIT'', ''EXEUNT'',
      ''ALARUM'', ''FLOURISH'']"

definition isLineTerminator :: "char \<Rightarrow> bool" where
  "isLineTerminator c = (c = CHR 0x0A \<or> c = CHR 0x0D)"

definition isBracketed :: "string \<Rightarrow> bool" where
  \<comment> \<open>\<^verbatim>\<open>/^\[.*\]$/\<close>; the dot matches no line terminator\<close>
  "isBracketed s =
     (case s of
        [] \<Rightarrow> False
      | c # r \<Rightarrow> c = CHR ''['' \<and> r \<noteq> [] \<and> last r = CHR '']'' \<and>
                 \<not> list_ex isLineTerminator (butlast r))"

definition processLine :: "state \<Rightarrow> string \<Rightarrow> state" where
  "processLine st line =
     (let trimmedLine = trim line in
      if trimmedLine = [] \<and> currentChunk st = [] then st
      else
        case findWork trimmedLine of
          Some workMatch \<Rightarrow>
            (saveFinalSonnet (saveCurrentChunk st))
              \<lparr>currentWork := workMatch,
               inSonnets := (workMatch = ''THE SONNETS''),
               currentSpeaker := None,
               currentChunk := [],
               sonnetNumber := None,
               sonnetText := []\<rparr>
        | None \<Rightarrow>
            if inSonnets st then
              (case isSonnetNumber trimmedLine of
                 Some num \<Rightarrow>
                   (if trim (sonnetText st) \<noteq> [] then pushSonnet st else st)
                     \<lparr>sonnetNumber := Some num, sonnetText := []\<rparr>
               | None \<Rightarrow>
                   if truthy (sonnetNumber st) \<and> trimmedLine \<noteq> []
                   then st\<lparr>sonnetText := sonnetText st @ line @ [newline]\<rparr>
                   else st)
            else
              (let sp = isSpeakerLine trimmedLine in
               if truthy sp
               then (saveCurrentChunk st)\<lparr>currentSpeaker := sp, currentChunk := []\<rparr>
               else if list_ex (startsWith trimmedLine) stageKeywords then st
               else if isBracketed trimmedLine then st
               else if truthy (currentSpeaker st) \<and> trimmedLine \<noteq> []
               then st\<lparr>currentChunk := currentChunk st @ line @ [newline]\<rparr>
               else st))"

fun processLines :: "state \<Rightarrow> string list \<Rightarrow> state" where
  "processLines st [] = st"
| "processLines st (line # rest) = processLines (processLine st line) rest"

definition finish :: "state \<Rightarrow> chunk list" where
  \<comment> \<open>the code after the loop over the lines\<close>
  "finish st = chunks (saveFinalSonnet (saveCurrentChunk st))"

definition processShakespeareText :: "string \<Rightarrow> chunk list" where
  "processShakespeareText t = finish (processLines initialState (splitLines [] t))"

section \<open>Cleaner\<close>

text \<open>
  Three patterns of \<open>cleanChunks\<close> are written with doubled backslashes, as the one of
  \<open>isSonnetNumber\<close> is: \<^verbatim>\<open>/^\\s*\\[.*\\]\\s*$/\<close> is a backslash, letters \<open>s\<close>, a
  backslash, one character of the class \<^verbatim>\<open>[.*\\]\<close>, a backslash, letters \<open>s\<close>;
  \<^verbatim>\<open>/^\\s*[\\.,;:!?-]*\\s*$/\<close> is a backslash, letters \<open>s\<close>, characters of the class
  \<^verbatim>\<open>[\\.,;:!?-]\<close>, a backslash, letters \<open>s\<close>; \<^verbatim>\<open>/^\\s*[0-9IVXivx]+\\s*$/\<close> is a
  backslash, letters \<open>s\<close>, one or more characters of \<^verbatim>\<open>[0-9IVXivx]\<close>, a backslash,
  letters \<open>s\<close>.
\<close>

definition isLetterS :: "char \<Rightarrow> bool" where
  "isLetterS c = (c = CHR ''s'')"

definition stageDirectionPattern :: "string \<Rightarrow> bool" where
  "stageDirectionPattern t =
     (case t of
        [] \<Rightarrow> False
      | c # r \<Rightarrow> c = backslash \<and>
          (case dropWhile isLetterS r of
             c2 # c3 # c4 # r2 \<Rightarrow>
               c2 = backslash \<and> (c3 = CHR ''.'' \<or> c3 = CHR ''*'' \<or> c3 = backslash) \<and>
               c4 = backslash \<and> list_all isLetterS r2
           | _ \<Rightarrow> False))"

definition punctClass :: "char \<Rightarrow> bool" where
  "punctClass c = (c = backslash \<or> c \<in> set ''.,;:!?-'')"

fun punctRest :: "string \<Rightarrow> bool" where
  \<comment> \<open>\<^verbatim>\<open>[\\.,;:!?-]*\\s*$\<close>: the class holds the backslash, so every split is tried\<close>
  "punctRest [] = False"
| "punctRest (c # cs) =
     ((c = backslash \<and> list_all isLetterS cs) \<or> (punctClass c \<and> punctRest cs))"

definition punctuationPattern :: "string \<Rightarrow> bool" where
  "punctuationPattern t =
     (case t of
        [] \<Rightarrow> False
      | c # r \<Rightarrow> c = backslash \<and> punctRest (dropWhile isLetterS r))"

definition numeralClass :: "char \<Rightarrow> bool" where
  "numeralClass c = (isDigit c \<or> c \<in> set ''IVXivx'')"

definition numeralPattern :: "string \<Rightarrow> bool" where
  "numeralPattern t =
     (case t of
        [] \<Rightarrow> False
      | c # r \<Rightarrow> c = backslash \<and>
          (let r1 = dropWhile isLetterS r in
           takeWhile numeralClass r1 \<noteq> [] \<and>
           (case dropWhile numeralClass r1 of
              [] \<Rightarrow> False
            | d # r3 \<Rightarrow> d = backslash \<and> list_all isLetterS r3)))"

definition isAlnum :: "char \<Rightarrow> bool" where
  "isAlnum c = (isLower c \<or> isUpper c \<or> isDigit c)"

function collapseWhitespace :: "string \<Rightarrow> string" where
  \<comment> \<open>\<^verbatim>\<open>.replace(/\s+/g, ' ')\<close>\<close>
  "collapseWhitespace [] = []"
| "collapseWhitespace (c # cs) =
     (if isWhitespace c then CHR '' '' # collapseWhitespace (dropWhile isWhitespace cs)
      else c # collapseWhitespace cs)"
  by pat_completeness auto
termination
  by (relation "measure length") (auto simp: less_Suc_eq_le length_dropWhile_le)

function splitWhitespace :: "string \<Rightarrow> string \<Rightarrow> string list" where
  \<comment> \<open>\<^verbatim>\<open>.split(/\s+/)\<close>\<close>
  "splitWhitespace cur [] = [cur]"
| "splitWhitespace cur (c # cs) =
     (if isWhitespace c then cur # splitWhitespace [] (dropWhile isWhitespace cs)
      else splitWhitespace (cur @ [c]) cs)"
  by pat_completeness auto
termination
  by (relation "measure (\<lambda>(cur, t). length t)")
     (auto simp: less_Suc_eq_le length_dropWhile_le)

definition countWords :: "string \<Rightarrow> nat" where
  "countWords t =
     (if t = [] then 0
      else length (filter (\<lambda>word. length word > 0 \<and> list_ex isAlnum word)
                     (splitWhitespace [] (collapseWhitespace (trim t)))))"

definition keepChunk :: "chunk \<Rightarrow> bool" where
  "keepChunk chunk =
     (\<not> length (text chunk) < 10 \<and>
      \<not> stageDirectionPattern (text chunk) \<and>
      \<not> list_ex (startsWith (text chunk)) [''ACT'', ''SCENE'', ''EPILOGUE'', ''PROLOGUE''] \<and>
      \<not> punctuationPattern (text chunk) \<and>
      \<not> numeralPattern (text chunk))"

definition cleanChunks :: "chunk list \<Rightarrow> cleanedChunk list" where
  "cleanChunks cs =
     map (\<lambda>(index, chunk).
            \<lparr>ident = index, work = work chunk, speaker = speaker chunk, text = text chunk,
             textLength = length (text chunk), wordCount = countWords (text chunk)\<rparr>)
         (enumerate 0 (filter keepChunk cs))"

section \<open>Auxiliary notions\<close>

text \<open>
  \<open>labelled sp idx ps\<close>: the parts \<open>ps\<close> carry the labels of part numbers \<open>idx\<close>,
  \<open>idx + 1\<close>, ..., except that a single part with number 1 may carry the bare speaker.
\<close>

definition labelled :: "string option \<Rightarrow> nat \<Rightarrow> chunk list \<Rightarrow> bool" where
  "labelled sp idx ps =
     (\<forall>j<length ps. speaker (ps ! j) = partLabel sp (idx + j) \<or>
        (idx + j \<le> 1 \<and> length ps = 1 \<and> speaker (ps ! j) = sp))"

text \<open>
  \<open>plainChar\<close>: a character that is no capital letter, no whitespace and no opening
  bracket; a line of such characters is body text for the segmenter.
\<close>

definition plainChar :: "char \<Rightarrow> bool" where
  "plainChar c = (\<not> isUpper c \<and> \<not> isWhitespace c \<and> c \<noteq> CHR ''['')"

text \<open>
  The nearest preceding title, in the words of the specification: the titles recognised
  on the lines of a list, in order, and the last of them, or \<open>UNKNOWN\<close> when there is
  none. Recognition is \<open>findWork\<close> on the trimmed line, as in the script.
\<close>

definition recognisedTitles :: "string list \<Rightarrow> string list" where
  "recognisedTitles ls = List.map_filter (\<lambda>l. findWork (trim l)) ls"

definition nearestTitle :: "string list \<Rightarrow> string" where
  "nearestTitle ls =
     (if recognisedTitles ls = [] then ''UNKNOWN'' else last (recognisedTitles ls))"

text \<open>
  The state after the first \<open>n\<close> lines, the chunks that the line with index \<open>n\<close> adds
  to the output, and the chunks that the code after the loop adds.
\<close>

definition stateAfter :: "string list \<Rightarrow> nat \<Rightarrow> state" where
  "stateAfter ls n = processLines initialState (take n ls)"

definition emittedBy :: "string list \<Rightarrow> nat \<Rightarrow> chunk list" where
  "emittedBy ls n =
     drop (length (chunks (stateAfter ls n))) (chunks (stateAfter ls (Suc n)))"

definition emittedAtEnd :: "string list \<Rightarrow> chunk list" where
  "emittedAtEnd ls =
     drop (length (chunks (stateAfter ls (length ls)))) (finish (stateAfter ls (length ls)))"

text \<open>
  \<open>extends st cs\<close>: the chunk list \<open>cs\<close> is the one of \<open>st\<close> followed by chunks whose
  work is the current work of \<open>st\<close>.
\<close>

definition extends :: "state \<Rightarrow> chunk list \<Rightarrow> bool" where
  "extends st cs =
     (\<exists>new. cs = chunks st @ new \<and> list_all (\<lambda>c. work c = currentWork st) new)"

text \<open>
  \<open>splitFree b s\<close>: the text \<open>s\<close> holds no separator of \<open>splitSentences\<close>, the flag
  saying whether a terminator stands right before it. \<open>startOK s\<close>: \<open>s\<close> does not start
  with whitespace. \<open>wellFormed ss\<close>: every piece of \<open>ss\<close> is free of separators and
  does not start with whitespace, and every piece but the last is non-empty and ends
  with a terminator. \<open>lead ss\<close> strips the whitespace in front of the first piece.
\<close>

fun splitFree :: "bool \<Rightarrow> string \<Rightarrow> bool" where
  "splitFree b [] = True"
| "splitFree b (c # cs) = (\<not> (b \<and> isWhitespace c) \<and> splitFree (isTerminator c) cs)"

definition startOK :: "string \<Rightarrow> bool" where
  "startOK s = (case s of [] \<Rightarrow> True | c # _ \<Rightarrow> \<not> isWhitespace c)"

fun wellFormed :: "string list \<Rightarrow> bool" where
  "wellFormed [] = True"
| "wellFormed [s] = (splitFree False s \<and> startOK s)"
| "wellFormed (s # s' # r) =
     (splitFree False s \<and> startOK s \<and> s \<noteq> [] \<and> isTerminator (last s) \<and> wellFormed (s' # r))"

definition lead :: "string list \<Rightarrow> string list" where
  "lead ss = (case ss of [] \<Rightarrow> [] | s # r \<Rightarrow> trimStart s # r)"

text \<open>
  \<open>glue g\<close> is the accumulator of the splitting loop after the sentences \<open>g\<close>:
  each sentence followed by one space. \<open>partTexts\<close> is the loop again, returning the
  texts of the parts only.
\<close>

definition glue :: "string list \<Rightarrow> string" where
  "glue g = concat (map (\<lambda>s. s @ '' '') g)"

text \<open>
  Comparing sentence sequences up to spacing: every sentence is trimmed, and a sentence
  that is empty after trimming is left out.
\<close>

definition normalise :: "string list \<Rightarrow> string list" where
  "normalise ss = filter (\<lambda>s. s \<noteq> []) (map trim ss)"

fun partTexts :: "nat \<Rightarrow> string list \<Rightarrow> string \<Rightarrow> string list" where
  "partTexts m [] cur = (if trim cur \<noteq> [] then [trim cur] else [])"
| "partTexts m (s # ss) cur =
     (if length cur + length s > m \<and> length cur > 0
      then trim cur # partTexts m ss (s @ '' '')
      else partTexts m ss (cur @ s @ '' ''))"

text \<open>
  \<open>nonblank s\<close>: \<open>s\<close> has a character that is not whitespace. \<open>finalOK ss cur\<close>: after
  the sentences \<open>ss\<close> the accumulator of the splitting loop, now \<open>cur\<close>, is not blank, so
  the final part is added.
\<close>

definition nonblank :: "string \<Rightarrow> bool" where
  "nonblank s = (\<not> list_all isWhitespace s)"

definition finalOK :: "string list \<Rightarrow> string \<Rightarrow> bool" where
  "finalOK ss cur = (case ss of [] \<Rightarrow> nonblank cur | _ # _ \<Rightarrow> nonblank (last ss))"

section \<open>Trimming\<close>

lemma trimStart_no_ws: "list_all (\<lambda>c. \<not> isWhitespace c) s \<Longrightarrow> trimStart s = s"
  by (cases s) (auto simp: trimStart_def)

lemma trimEnd_no_ws: "list_all (\<lambda>c. \<not> isWhitespace c) s \<Longrightarrow> trimEnd s = s"
proof (cases "rev s")
  case Nil
  then show ?thesis by (simp add: trimEnd_def)
next
  case (Cons c r)
  assume "list_all (\<lambda>c. \<not> isWhitespace c) s"
  then have "\<not> isWhitespace c" using Cons
    by (metis list.set_intros(1) list_all_iff set_rev)
  then show ?thesis using Cons by (simp add: trimEnd_def)
qed

lemma trim_no_ws: "list_all (\<lambda>c. \<not> isWhitespace c) s \<Longrightarrow> trim s = s"
  by (simp add: trim_def trimStart_no_ws trimEnd_no_ws)

lemma trimStart_Nil: "trimStart [] = []"
  by (simp add: trimStart_def)

lemma trimStart_Cons: "trimStart (c # s) = (if isWhitespace c then trimStart s else c # s)"
  by (simp add: trimStart_def)

lemma trimStart_append:
  "trimStart (xs @ ys) = (if list_all isWhitespace xs then trimStart ys else trimStart xs @ ys)"
  by (simp add: trimStart_def dropWhile_append list_all_iff)

lemma trimEnd_Nil: "trimEnd [] = []"
  by (simp add: trimEnd_def)

lemma trimEnd_append:
  "trimEnd (xs @ ys) = (if list_all isWhitespace ys then trimEnd xs else xs @ trimEnd ys)"
  by (simp add: trimEnd_def dropWhile_append list_all_iff)

lemma terminator_not_ws: "isTerminator c \<Longrightarrow> \<not> isWhitespace c"
  by (auto simp: isTerminator_def isWhitespace_def)

lemma space_ws: "isWhitespace CHR '' ''"
  by (simp add: isWhitespace_def)

lemma trimEnd_eq_Nil: "trimEnd s = [] \<longleftrightarrow> list_all isWhitespace s"
  by (auto simp: trimEnd_def dropWhile_eq_Nil_conv list_all_iff)

lemma trimStart_eq_Nil: "trimStart s = [] \<longleftrightarrow> list_all isWhitespace s"
  by (auto simp: trimStart_def dropWhile_eq_Nil_conv list_all_iff)

lemma trimEnd_last: "s \<noteq> [] \<Longrightarrow> \<not> isWhitespace (last s) \<Longrightarrow> trimEnd s = s"
  by (cases s rule: rev_cases) (simp_all add: trimEnd_def)

lemma startOK_Nil: "startOK []"
  by (simp add: startOK_def)

lemma startOK_trimStart_id: "startOK s \<Longrightarrow> trimStart s = s"
  by (cases s) (simp_all add: startOK_def trimStart_def)

lemma startOK_trimStart: "startOK (trimStart s)"
  by (induction s) (auto simp: startOK_def trimStart_def)

lemma startOK_dropWhile: "startOK (dropWhile isWhitespace cs)"
  using startOK_trimStart [of cs] by (simp add: trimStart_def)

lemma trimStart_idem: "trimStart (trimStart s) = trimStart s"
  by (simp add: startOK_trimStart startOK_trimStart_id)

lemma trimEnd_decomp: "trimEnd s @ rev (takeWhile isWhitespace (rev s)) = s"
proof -
  have "rev (takeWhile isWhitespace (rev s) @ dropWhile isWhitespace (rev s)) = s" by simp
  then show ?thesis unfolding trimEnd_def rev_append .
qed

lemma trimStart_decomp: "takeWhile isWhitespace s @ trimStart s = s"
  by (simp add: trimStart_def)

lemma length_trimEnd: "length (trimEnd s) \<le> length s"
  by (simp add: trimEnd_def length_dropWhile_le [of _ "rev s", simplified])

lemma length_trimStart: "length (trimStart s) \<le> length s"
  by (simp add: trimStart_def length_dropWhile_le)

lemma length_trim: "length (trim s) \<le> length s"
  unfolding trim_def using length_trimEnd [of "trimStart s"] length_trimStart [of s] by simp

lemma trim_snoc_ws:
  assumes "isWhitespace c"
  shows "trim (s @ [c]) = trim s"
proof (cases "list_all isWhitespace s")
  case True
  then have "trimStart s = []" by (simp add: trimStart_eq_Nil)
  then show ?thesis
    using True assms by (simp add: trim_def trimStart_append trimStart_Cons trimStart_Nil)
next
  case False
  then show ?thesis
    using assms by (simp add: trim_def trimStart_append trimEnd_append)
qed

lemma trim_glued: "trim (s @ '' '') = trim s"
  using trim_snoc_ws [OF space_ws, of s] by simp

lemma trim_startOK: "startOK s \<Longrightarrow> trim s = trimEnd s"
  by (simp add: trim_def startOK_trimStart_id)

lemma startOK_append: "startOK s \<Longrightarrow> s \<noteq> [] \<Longrightarrow> startOK (s @ t)"
  by (cases s) (simp_all add: startOK_def)

lemma startOK_prefix: "startOK (cur @ t) \<Longrightarrow> cur \<noteq> [] \<Longrightarrow> startOK cur"
  by (cases cur) (simp_all add: startOK_def)

lemma startOK_trimEnd: "startOK s \<Longrightarrow> startOK (trimEnd s)"
proof (cases "trimEnd s")
  case Nil
  then show ?thesis by (simp add: startOK_def)
next
  case (Cons c r)
  assume "startOK s"
  moreover have "s = (c # r) @ rev (takeWhile isWhitespace (rev s))"
    using trimEnd_decomp [of s] Cons by simp
  ultimately show ?thesis using Cons by (cases s) (auto simp: startOK_def)
qed

lemma trimEnd_space: "trimEnd '' '' = []"
  using space_ws by (simp add: trimEnd_def)

lemma trimEnd_space_Cons:
  "trimEnd (CHR '' '' # Y) = (if trimEnd Y = [] then [] else CHR '' '' # trimEnd Y)"
proof -
  have "trimEnd ('' '' @ Y) = (if list_all isWhitespace Y then trimEnd '' '' else '' '' @ trimEnd Y)"
    by (rule trimEnd_append)
  then show ?thesis by (simp add: trimEnd_space trimEnd_eq_Nil)
qed

lemma trimStart_append_trimStart: "trimStart (trimStart s @ X) = trimStart (s @ X)"
proof (cases "list_all isWhitespace s")
  case True
  then have "trimStart s = []" by (simp add: trimStart_eq_Nil)
  then show ?thesis using True by (simp add: trimStart_append)
next
  case False
  then have n: "trimStart s \<noteq> []" by (simp add: trimStart_eq_Nil)
  then have "startOK (trimStart s @ X)" using startOK_trimStart by (intro startOK_append)
  then have "trimStart (trimStart s @ X) = trimStart s @ X" by (rule startOK_trimStart_id)
  then show ?thesis using False by (simp add: trimStart_append)
qed

lemma trimEnd_last_nonws: "trimEnd x \<noteq> [] \<Longrightarrow> \<not> isWhitespace (last (trimEnd x))"
  unfolding trimEnd_def by (simp add: last_rev hd_dropWhile)

lemma trimmed_ends:
  assumes "trim t = t" and "t \<noteq> []"
  shows "startOK t" and "\<not> isWhitespace (last t)"
proof -
  have "startOK (trim t)" unfolding trim_def by (intro startOK_trimEnd startOK_trimStart)
  then show "startOK t" using assms(1) by simp
  have "trimEnd (trimStart t) \<noteq> []" using assms by (simp add: trim_def)
  then have "\<not> isWhitespace (last (trimEnd (trimStart t)))" by (rule trimEnd_last_nonws)
  then show "\<not> isWhitespace (last t)" using assms(1) by (simp add: trim_def)
qed

lemma dropWhile_last_nonws:
  assumes "cs \<noteq> []" and "\<not> isWhitespace (last cs)"
  shows "dropWhile isWhitespace cs \<noteq> []"
    and "last (dropWhile isWhitespace cs) = last cs"
    and "dropWhile isWhitespace (cs @ r) = dropWhile isWhitespace cs @ r"
proof -
  have m: "last cs \<in> set cs" using assms(1) by simp
  show n: "dropWhile isWhitespace cs \<noteq> []"
  proof
    assume "dropWhile isWhitespace cs = []"
    then have "\<forall>x\<in>set cs. isWhitespace x" by (simp add: dropWhile_eq_Nil_conv)
    then show False using m assms(2) by blast
  qed
  show "last (dropWhile isWhitespace cs) = last cs"
    using n last_appendR [of "dropWhile isWhitespace cs" "takeWhile isWhitespace cs"] by simp
  show "dropWhile isWhitespace (cs @ r) = dropWhile isWhitespace cs @ r"
    using m assms(2) by (rule dropWhile_append1)
qed

lemma trim_terminated: "x \<noteq> [] \<Longrightarrow> isTerminator (last x) \<Longrightarrow> trim x \<noteq> []"
proof -
  assume x: "x \<noteq> []" "isTerminator (last x)"
  then have lw: "\<not> isWhitespace (last x)" using terminator_not_ws by blast
  have d: "trimStart x \<noteq> []" "last (trimStart x) = last x"
    using dropWhile_last_nonws(1,2) [OF x(1) lw] by (simp_all add: trimStart_def)
  then have "trimEnd (trimStart x) = trimStart x" using lw by (intro trimEnd_last) simp_all
  then show ?thesis using d(1) by (simp add: trim_def)
qed

lemma trim_eq_Nil: "trim s = [] \<longleftrightarrow> list_all isWhitespace s"
proof
  assume "trim s = []"
  then have "list_all isWhitespace (trimStart s)" by (simp add: trim_def trimEnd_eq_Nil)
  moreover have "list_all isWhitespace (takeWhile isWhitespace s)"
    by (auto simp: list_all_iff dest: set_takeWhileD)
  ultimately have "list_all isWhitespace (takeWhile isWhitespace s @ trimStart s)" by simp
  then show "list_all isWhitespace s" by (simp add: trimStart_decomp)
next
  assume "list_all isWhitespace s"
  then have "trimStart s = []" by (simp add: trimStart_eq_Nil)
  then show "trim s = []" by (simp add: trim_def trimEnd_Nil)
qed

lemma nonblank_trim: "nonblank s \<longleftrightarrow> trim s \<noteq> []"
  by (simp add: nonblank_def trim_eq_Nil)

lemma nonblank_append: "nonblank (xs @ ys) \<longleftrightarrow> nonblank xs \<or> nonblank ys"
  by (auto simp: nonblank_def)

section \<open>Sentences\<close>

subsection \<open>Pieces without a separator\<close>

lemma splitFree_weaken: "splitFree b s \<Longrightarrow> splitFree False s"
  by (cases s) simp_all

lemma splitFree_append:
  "splitFree b (xs @ ys) \<Longrightarrow> splitFree b xs \<and> splitFree False ys"
proof (induction xs arbitrary: b)
  case Nil
  then show ?case by (simp add: splitFree_weaken)
next
  case (Cons x xs)
  then show ?case by auto
qed

lemma splitFree_snoc:
  "splitFree f (xs @ [c]) =
     (splitFree f xs \<and> \<not> ((if xs = [] then f else isTerminator (last xs)) \<and> isWhitespace c))"
  by (induction xs arbitrary: f) auto

lemma splitFree_trimEnd: "splitFree b s \<Longrightarrow> splitFree b (trimEnd s)"
  using splitFree_append [of b "trimEnd s" "rev (takeWhile isWhitespace (rev s))"]
  by (simp add: trimEnd_decomp)

lemma splitFree_trimStart: "splitFree b s \<Longrightarrow> splitFree False (trimStart s)"
  using splitFree_append [of b "takeWhile isWhitespace s" "trimStart s"]
  by (simp add: trimStart_decomp)

lemma splitSentences_splitFree: "splitFree b s \<Longrightarrow> splitSentences cur b s = [cur @ s]"
  by (induction s arbitrary: cur b) auto

lemma sentencesOf_splitFree: "splitFree False s \<Longrightarrow> sentencesOf s = [s]"
  by (simp add: sentencesOf_def splitSentences_splitFree)

lemma splitSentences_not_Nil: "splitSentences cur b t \<noteq> []"
  by (induction cur b t rule: splitSentences.induct) auto

subsection \<open>Joining sentences with whitespace\<close>

lemma splitSentences_join:
  assumes "isWhitespace w" and "startOK t"
  shows "s \<noteq> [] \<Longrightarrow> isTerminator (last s) \<Longrightarrow>
         splitSentences cur b (s @ w # t) = splitSentences cur b s @ splitSentences [] False t"
proof (induction cur b s rule: splitSentences.induct)
  case (1 cur b)
  then show ?case by simp
next
  case (2 cur b c cs)
  have t: "dropWhile isWhitespace t = t"
    using assms(2) startOK_trimStart_id by (simp add: trimStart_def)
  show ?case
  proof (cases "b \<and> isWhitespace c")
    case True
    then have "\<not> isTerminator c" using terminator_not_ws by blast
    then have cs: "cs \<noteq> []" using "2.prems" by (cases cs) auto
    then have lt: "isTerminator (last cs)" using "2.prems" by simp
    then have lw: "\<not> isWhitespace (last cs)" by (rule terminator_not_ws)
    note dw = dropWhile_last_nonws [OF cs lw]
    have "splitSentences [] False (dropWhile isWhitespace cs @ w # t) =
          splitSentences [] False (dropWhile isWhitespace cs) @ splitSentences [] False t"
      using dw(1) lt dw(2) by (intro "2.IH"(1) [OF True]) simp_all
    then show ?thesis using True by (simp add: dw(3))
  next
    case False
    show ?thesis
    proof (cases cs)
      case Nil
      then show ?thesis using False "2.prems" assms(1) t by (cases b) simp_all
    next
      case (Cons x xs)
      then have "splitSentences (cur @ [c]) (isTerminator c) (cs @ w # t) =
          splitSentences (cur @ [c]) (isTerminator c) cs @ splitSentences [] False t"
        using "2.prems" by (intro "2.IH"(2) [OF False]) simp_all
      then show ?thesis using False by (cases b) simp_all
    qed
  qed
qed

lemma sentencesOf_join:
  assumes "isWhitespace w" and "startOK t" and "s \<noteq> []" and "isTerminator (last s)"
    and "splitFree False s"
  shows "sentencesOf (s @ w # t) = s # sentencesOf t"
  using splitSentences_join [OF assms(1,2,3,4), of "[]" False] assms(5)
  by (simp add: sentencesOf_def splitSentences_splitFree)

subsection \<open>The shape of the sentence list\<close>

lemma wellFormed_splitSentences:
  "splitFree False cur \<Longrightarrow> b = (cur \<noteq> [] \<and> isTerminator (last cur)) \<Longrightarrow>
   startOK (cur @ t) \<Longrightarrow> wellFormed (splitSentences cur b t)"
proof (induction cur b t rule: splitSentences.induct)
  case (1 cur b)
  then show ?case by simp
next
  case (2 cur b c cs)
  show ?case
  proof (cases "b \<and> isWhitespace c")
    case True
    let ?R = "splitSentences [] False (dropWhile isWhitespace cs)"
    have "wellFormed ?R"
      by (intro "2.IH"(1) [OF True]) (simp_all add: startOK_dropWhile)
    moreover obtain s' r where "?R = s' # r"
      using splitSentences_not_Nil [of "[]" False "dropWhile isWhitespace cs"]
      by (cases ?R) auto
    moreover have "cur \<noteq> []" "isTerminator (last cur)" using True "2.prems"(2) by auto
    moreover have "startOK cur" using "2.prems"(3) \<open>cur \<noteq> []\<close> by (rule startOK_prefix)
    ultimately show ?thesis using True "2.prems"(1) by simp
  next
    case False
    have "splitFree False (cur @ [c])"
      using "2.prems"(1,2) False by (auto simp: splitFree_snoc)
    then have "wellFormed (splitSentences (cur @ [c]) (isTerminator c) cs)"
      using "2.prems"(3) by (intro "2.IH"(2) [OF False]) simp_all
    then show ?thesis using False by (cases b) simp_all
  qed
qed

lemma wellFormed_sentencesOf: "startOK t \<Longrightarrow> wellFormed (sentencesOf t)"
  unfolding sentencesOf_def by (rule wellFormed_splitSentences) simp_all

lemma splitSentences_acc_all:
  fixes cur :: string
  shows "\<forall>cur'. splitSentences cur' b t =
     (cur' @ hd (splitSentences [] b t)) # tl (splitSentences [] b t)"
proof (induction cur b t rule: splitSentences.induct)
  case (1 cur b)
  then show ?case by simp
next
  case (2 cur b c cs)
  show ?case
  proof (cases "b \<and> isWhitespace c")
    case True
    then show ?thesis by simp
  next
    case False
    have ih: "\<And>cur'. splitSentences cur' (isTerminator c) cs =
        (cur' @ hd (splitSentences [] (isTerminator c) cs)) #
        tl (splitSentences [] (isTerminator c) cs)"
      using "2.IH"(2) [OF False] by blast
    show ?thesis
    proof
      fix cur'
      have "splitSentences cur' b (c # cs) = splitSentences (cur' @ [c]) (isTerminator c) cs"
        using False by (cases b) simp_all
      moreover have "splitSentences [] b (c # cs) = splitSentences [c] (isTerminator c) cs"
        using False by (cases b) simp_all
      ultimately show "splitSentences cur' b (c # cs) =
          (cur' @ hd (splitSentences [] b (c # cs))) # tl (splitSentences [] b (c # cs))"
        using ih [of "cur' @ [c]"] ih [of "[c]"] by simp
    qed
  qed
qed

lemma splitSentences_ws_prefix:
  "list_all isWhitespace w \<Longrightarrow>
   splitSentences cur False (w @ t) = splitSentences (cur @ w) False t"
proof (induction w arbitrary: cur)
  case Nil
  then show ?case by simp
next
  case (Cons c w)
  then have "\<not> isTerminator c" using terminator_not_ws by auto
  then show ?case using Cons by simp
qed

lemma lead_sentencesOf: "lead (sentencesOf t) = sentencesOf (trimStart t)"
proof -
  let ?w = "takeWhile isWhitespace t" and ?Y = "sentencesOf (trimStart t)"
  have w: "list_all isWhitespace ?w" by (auto simp: list_all_iff dest: set_takeWhileD)
  have "sentencesOf t = splitSentences [] False (?w @ trimStart t)"
    by (simp add: sentencesOf_def trimStart_def)
  also have "\<dots> = splitSentences ?w False (trimStart t)"
    using splitSentences_ws_prefix [OF w, of "[]"] by simp
  also have "\<dots> = (?w @ hd ?Y) # tl ?Y"
    unfolding sentencesOf_def using splitSentences_acc_all [of False "trimStart t"] by (rule spec)
  finally have s: "sentencesOf t = (?w @ hd ?Y) # tl ?Y" .
  have Y: "?Y \<noteq> []" by (simp add: sentencesOf_def splitSentences_not_Nil)
  have "wellFormed ?Y" by (rule wellFormed_sentencesOf) (rule startOK_trimStart)
  then have "startOK (hd ?Y)" using Y by (cases ?Y rule: wellFormed.cases) auto
  then have "trimStart (?w @ hd ?Y) = hd ?Y"
    using w by (simp add: trimStart_append startOK_trimStart_id)
  then show ?thesis using s Y by (simp add: lead_def)
qed

lemma wellFormed_lead_sentencesOf: "wellFormed (lead (sentencesOf t))"
  unfolding lead_sentencesOf by (rule wellFormed_sentencesOf) (rule startOK_trimStart)

lemma wellFormed_Cons:
  "wellFormed (s # r) \<Longrightarrow> splitFree False s \<and> startOK s \<and> wellFormed r"
  by (cases r) simp_all

lemma wellFormed_append: "wellFormed (xs @ ys) \<Longrightarrow> wellFormed xs \<and> wellFormed ys"
proof (induction xs rule: wellFormed.induct)
  case 1
  then show ?case by simp
next
  case (2 s)
  then show ?case using wellFormed_Cons [of s ys] by simp
next
  case (3 s s' r)
  then show ?case by simp
qed

lemma wellFormed_nonlast:
  "wellFormed (xs @ y # ys) \<Longrightarrow> list_all (\<lambda>s. s \<noteq> [] \<and> isTerminator (last s)) xs"
proof (induction xs)
  case Nil
  then show ?case by simp
next
  case (Cons x xs)
  then show ?case by (cases xs) simp_all
qed

lemma wellFormed_lead_id: "wellFormed xs \<Longrightarrow> lead xs = xs"
  by (cases xs) (auto simp: lead_def dest: wellFormed_Cons startOK_trimStart_id)

lemma wellFormed_startOK: "wellFormed xs \<Longrightarrow> list_all startOK xs"
  by (induction xs rule: wellFormed.induct) simp_all

lemma last_sentence:
  "t \<noteq> [] \<Longrightarrow> \<not> isWhitespace (last t) \<Longrightarrow>
   last (splitSentences cur b t) \<noteq> [] \<and> last (last (splitSentences cur b t)) = last t"
proof (induction cur b t rule: splitSentences.induct)
  case (1 cur b)
  then show ?case by simp
next
  case (2 cur b c cs)
  show ?case
  proof (cases "b \<and> isWhitespace c")
    case True
    then have cs: "cs \<noteq> []" using "2.prems" by (cases cs) auto
    then have lw: "\<not> isWhitespace (last cs)" using "2.prems" by simp
    note dw = dropWhile_last_nonws(1,2) [OF cs lw]
    have "last (splitSentences [] False (dropWhile isWhitespace cs)) \<noteq> [] \<and>
          last (last (splitSentences [] False (dropWhile isWhitespace cs))) =
          last (dropWhile isWhitespace cs)"
      using dw lw by (intro "2.IH"(1) [OF True]) simp_all
    then show ?thesis using True cs dw(2) by (simp add: splitSentences_not_Nil)
  next
    case False
    show ?thesis
    proof (cases cs)
      case Nil
      then show ?thesis using False by (cases b) simp_all
    next
      case (Cons x xs)
      then have "last (splitSentences (cur @ [c]) (isTerminator c) cs) \<noteq> [] \<and>
          last (last (splitSentences (cur @ [c]) (isTerminator c) cs)) = last cs"
        using "2.prems" by (intro "2.IH"(2) [OF False]) simp_all
      then show ?thesis using False Cons by (cases b) simp_all
    qed
  qed
qed

lemma sentences_trimmed:
  assumes "trim t = t" and "t \<noteq> []"
  shows "list_all (\<lambda>s. s \<noteq> [] \<and> trim s = s) (sentencesOf t)"
proof -
  let ?S = "sentencesOf t"
  note e = trimmed_ends [OF assms]
  have wf: "wellFormed ?S" using e(1) by (rule wellFormed_sentencesOf)
  have ne: "?S \<noteq> []" by (simp add: sentencesOf_def splitSentences_not_Nil)
  then have S: "?S = butlast ?S @ [last ?S]" by simp
  have so: "list_all startOK ?S" using wf by (rule wellFormed_startOK)
  have "wellFormed (butlast ?S @ last ?S # [])" using wf S by simp
  then have "list_all (\<lambda>s. s \<noteq> [] \<and> isTerminator (last s)) (butlast ?S)"
    by (rule wellFormed_nonlast)
  moreover have "last ?S \<noteq> [] \<and> last (last ?S) = last t"
    unfolding sentencesOf_def using assms(2) e(2) by (rule last_sentence)
  ultimately have "list_all (\<lambda>s. s \<noteq> [] \<and> \<not> isWhitespace (last s)) (butlast ?S @ [last ?S])"
    using e(2) terminator_not_ws by (auto simp: list_all_iff)
  then have "list_all (\<lambda>s. s \<noteq> [] \<and> \<not> isWhitespace (last s)) ?S" using S by simp
  then show ?thesis
    using so by (auto simp: list_all_iff trim_startOK trimEnd_last)
qed

subsection \<open>Sentences of a glued group\<close>

lemma glue_Nil: "glue [] = []"
  by (simp add: glue_def)

lemma glue_Cons: "glue (s # r) = s @ CHR '' '' # glue r"
  by (simp add: glue_def)

lemma glue_snoc: "glue (g @ [s]) = glue g @ s @ '' ''"
  by (simp add: glue_def)

lemma glue_eq_Nil: "glue g = [] \<longleftrightarrow> g = []"
  by (cases g) (simp_all add: glue_def)

lemma normalise_Nil: "normalise [] = []"
  by (simp add: normalise_def)

lemma normalise_Cons:
  "normalise (s # r) = (if trim s = [] then normalise r else trim s # normalise r)"
  by (simp add: normalise_def)

lemma normalise_append: "normalise (xs @ ys) = normalise xs @ normalise ys"
  by (simp add: normalise_def)

lemma normalise_trimmed:
  "list_all (\<lambda>s. s \<noteq> [] \<and> trim s = s) ss \<Longrightarrow> normalise ss = ss"
  by (induction ss) (simp_all add: normalise_Nil normalise_Cons)

lemma sentences_glue:
  "wellFormed g \<Longrightarrow>
   (if trimEnd (glue g) = [] then normalise g = []
    else sentencesOf (trimEnd (glue g)) = normalise g)"
proof (induction g rule: wellFormed.induct)
  case 1
  then show ?case by (simp add: glue_Nil trimEnd_Nil normalise_Nil)
next
  case (2 s)
  then have s: "splitFree False s" "startOK s" by simp_all
  have g: "trimEnd (glue [s]) = trimEnd s"
    using trimEnd_append [of s "'' ''"] space_ws by (simp add: glue_Cons glue_Nil)
  have t: "trim s = trimEnd s" using s(2) by (rule trim_startOK)
  have "sentencesOf (trimEnd s) = [trimEnd s]"
    using s(1) by (intro sentencesOf_splitFree splitFree_trimEnd)
  then show ?case by (simp add: g t normalise_Cons normalise_Nil)
next
  case (3 s s' r)
  let ?Y = "glue (s' # r)"
  from "3.prems" have s: "splitFree False s" "startOK s" "s \<noteq> []" "isTerminator (last s)"
    and wf: "wellFormed (s' # r)" by simp_all
  have lw: "\<not> isWhitespace (last s)" using s(4) by (rule terminator_not_ws)
  have te: "trimEnd s = s" using s(3) lw by (rule trimEnd_last)
  have t: "trim s = s" using trim_startOK [OF s(2)] te by simp
  have ss: "sentencesOf s = [s]" using s(1) by (rule sentencesOf_splitFree)
  have ih: "if trimEnd ?Y = [] then normalise (s' # r) = []
            else sentencesOf (trimEnd ?Y) = normalise (s' # r)"
    using "3.IH" wf by simp
  show ?case
  proof (cases "trimEnd ?Y = []")
    case True
    then have "trimEnd (glue (s # s' # r)) = s"
      using trimEnd_append [of s "CHR '' '' # ?Y"] space_ws te
      by (simp add: glue_Cons [of s] trimEnd_eq_Nil)
    then show ?thesis using True ih s(3) by (simp add: normalise_Cons [of s] t ss)
  next
    case False
    then have g: "trimEnd (glue (s # s' # r)) = s @ CHR '' '' # trimEnd ?Y"
      using trimEnd_append [of s "CHR '' '' # ?Y"] space_ws
      by (simp add: glue_Cons [of s] trimEnd_eq_Nil trimEnd_space_Cons)
    have "s' \<noteq> []"
    proof
      assume e: "s' = []"
      then have "r = []" using wf by (cases r) simp_all
      then have "?Y = '' ''" using e by (simp add: glue_Cons glue_Nil)
      then show False using False space_ws by (simp add: trimEnd_eq_Nil)
    qed
    moreover have "startOK s'" using wf wellFormed_Cons by blast
    ultimately have "startOK ?Y" by (simp add: glue_Cons [of s'] startOK_append)
    then have "startOK (trimEnd ?Y)" by (rule startOK_trimEnd)
    then have "sentencesOf (s @ CHR '' '' # trimEnd ?Y) = s # sentencesOf (trimEnd ?Y)"
      using space_ws s by (intro sentencesOf_join)
    then show ?thesis using False ih s(3) by (simp add: g normalise_Cons [of s] t)
  qed
qed

lemma trim_glue_wellFormed: "wellFormed g \<Longrightarrow> trim (glue g) = trimEnd (glue g)"
proof (cases g)
  case Nil
  then show ?thesis by (simp add: glue_Nil trim_def trimStart_Nil)
next
  case (Cons s r)
  assume "wellFormed g"
  then have s: "startOK s" using Cons wellFormed_Cons by blast
  show ?thesis
  proof (cases "s = []")
    case True
    then have "r = []" using \<open>wellFormed g\<close> Cons by (cases r) simp_all
    then show ?thesis using True Cons space_ws
      by (simp add: glue_Cons glue_Nil trim_def trimStart_Cons trimStart_Nil trimEnd_Nil
            trimEnd_space)
  next
    case False
    then have "startOK (glue g)" using s Cons by (simp add: glue_Cons startOK_append)
    then show ?thesis by (rule trim_startOK)
  qed
qed

lemma trim_glue_lead: "trim (glue (lead g)) = trim (glue g)"
  by (cases g) (simp_all add: lead_def glue_Cons trim_def trimStart_append_trimStart)

lemma normalise_lead: "normalise (lead g) = normalise g"
  by (cases g) (simp_all add: lead_def normalise_Cons trim_def trimStart_idem)

lemma sentences_glue_lead:
  assumes "wellFormed (lead g)"
  shows "if trim (glue g) = [] then normalise g = []
         else sentencesOf (trim (glue g)) = normalise g"
proof -
  have e: "trimEnd (glue (lead g)) = trim (glue g)"
    using trim_glue_wellFormed [OF assms] trim_glue_lead [of g] by simp
  show ?thesis using sentences_glue [OF assms] unfolding e normalise_lead .
qed

lemma lead_append: "g \<noteq> [] \<Longrightarrow> lead (g @ ss) = lead g @ ss"
  by (cases g) (simp_all add: lead_def)

section \<open>The splitting loop\<close>

lemma splitLoop_acc:
  "splitLoop c m ss acc cur idx = acc @ splitLoop c m ss [] cur idx"
proof (induction ss arbitrary: acc cur idx)
  case Nil
  then show ?case by simp
next
  case (Cons s ss)
  show ?case
  proof (cases "length cur + length s > m \<and> length cur > 0")
    case True
    then show ?thesis
      using Cons.IH [of "acc @ [c\<lparr>text := trim cur, speaker := partLabel (speaker c) idx\<rparr>]"]
            Cons.IH [of "[c\<lparr>text := trim cur, speaker := partLabel (speaker c) idx\<rparr>]"]
      by simp
  next
    case False
    then show ?thesis using Cons.IH [of acc] by auto
  qed
qed

lemma splitLoop_Cons:
  "splitLoop c m (s # ss) [] cur idx =
     (if length cur + length s > m \<and> length cur > 0
      then c\<lparr>text := trim cur, speaker := partLabel (speaker c) idx\<rparr> #
           splitLoop c m ss [] (s @ '' '') (idx + 1)
      else splitLoop c m ss [] (cur @ s @ '' '') idx)"
  using splitLoop_acc [of c m ss "[c\<lparr>text := trim cur, speaker := partLabel (speaker c) idx\<rparr>]"]
  by simp

lemma splitLoop_inherits:
  "list_all (\<lambda>p. work p = work c \<and> ident p = ident c) (splitLoop c m ss [] cur idx)"
  by (induction ss arbitrary: cur idx) (simp_all add: splitLoop_Cons del: splitLoop.simps(2))

lemma splitLargeChunk_inherits:
  "list_all (\<lambda>p. work p = work c \<and> ident p = ident c) (splitLargeChunk c m)"
  by (simp add: splitLargeChunk_def splitLoop_inherits)

lemma splitLoop_labelled:
  "1 \<le> idx \<Longrightarrow> labelled (speaker c) idx (splitLoop c m ss [] cur idx)"
proof (induction ss arbitrary: cur idx)
  case Nil
  then show ?case by (auto simp: labelled_def)
next
  case (Cons s ss)
  show ?case
  proof (cases "length cur + length s > m \<and> length cur > 0")
    case True
    have ih: "labelled (speaker c) (idx + 1) (splitLoop c m ss [] (s @ '' '') (idx + 1))"
      using Cons.IH [of "idx + 1"] by simp
    show ?thesis
      unfolding labelled_def
    proof (intro allI impI)
      fix j
      assume j: "j < length (splitLoop c m (s # ss) [] cur idx)"
      show "speaker (splitLoop c m (s # ss) [] cur idx ! j) = partLabel (speaker c) (idx + j) \<or>
            idx + j \<le> 1 \<and> length (splitLoop c m (s # ss) [] cur idx) = 1 \<and>
            speaker (splitLoop c m (s # ss) [] cur idx ! j) = speaker c"
      proof (cases j)
        case 0
        then show ?thesis using True by (simp add: splitLoop_Cons del: splitLoop.simps(2))
      next
        case (Suc j')
        then have "j' < length (splitLoop c m ss [] (s @ '' '') (idx + 1))"
          using j True by (simp add: splitLoop_Cons del: splitLoop.simps(2))
        then have "speaker (splitLoop c m ss [] (s @ '' '') (idx + 1) ! j') =
                   partLabel (speaker c) (idx + 1 + j')"
          using ih Cons.prems unfolding labelled_def by auto
        then show ?thesis using True Suc
          by (simp add: splitLoop_Cons del: splitLoop.simps(2))
      qed
    qed
  next
    case False
    then show ?thesis using Cons.IH [OF Cons.prems]
      by (auto simp add: splitLoop_Cons simp del: splitLoop.simps(2))
  qed
qed

lemma showNat_1: "showNat (Suc 0) = ''1''"
  by (simp add: showNat.simps)

lemma showNat_small:
  "showNat (Suc 0) = ''1''" "showNat (Suc (Suc 0)) = ''2''" "showNat 2 = ''2''"
  by (simp_all add: showNat.simps)

lemma text_splitLoop: "map text (splitLoop c m ss [] cur idx) = partTexts m ss cur"
  by (induction ss arbitrary: cur idx) (simp_all add: splitLoop_Cons del: splitLoop.simps(2))

lemma sentences_partTexts:
  "wellFormed (lead (g @ ss)) \<Longrightarrow>
   concat (map sentencesOf (partTexts m ss (glue g))) = normalise (g @ ss)"
proof (induction ss arbitrary: g)
  case Nil
  then show ?case using sentences_glue_lead [of g] by simp
next
  case (Cons s ss)
  show ?case
  proof (cases "length (glue g) + length s > m \<and> length (glue g) > 0")
    case True
    then have g: "g \<noteq> []" by (auto simp: glue_eq_Nil)
    then have wf: "wellFormed (lead g @ s # ss)" using Cons.prems by (simp add: lead_append)
    then have wg: "wellFormed (lead g)" and ws: "wellFormed (s # ss)"
      using wellFormed_append by blast+
    have "list_all (\<lambda>s. s \<noteq> [] \<and> isTerminator (last s)) (lead g)"
      using wf by (rule wellFormed_nonlast)
    moreover obtain x r where xr: "lead g = x # r" using g by (cases g) (auto simp: lead_def)
    ultimately have "trim x \<noteq> []" by (simp add: trim_terminated)
    then have "normalise (lead g) \<noteq> []" using xr by (simp add: normalise_Cons)
    then have "normalise g \<noteq> []" by (simp add: normalise_lead)
    then have a: "trim (glue g) \<noteq> []" "sentencesOf (trim (glue g)) = normalise g"
      using sentences_glue_lead [OF wg] by (auto split: if_splits)
    have "wellFormed (lead ([s] @ ss))" using ws by (simp add: wellFormed_lead_id)
    then have "concat (map sentencesOf (partTexts m ss (glue [s]))) = normalise ([s] @ ss)"
      by (rule Cons.IH)
    then show ?thesis using True a by (simp add: glue_Cons glue_Nil normalise_append [of g])
  next
    case False
    have "concat (map sentencesOf (partTexts m ss (glue (g @ [s])))) = normalise ((g @ [s]) @ ss)"
      using Cons.prems by (intro Cons.IH) simp
    then show ?thesis using False by (auto simp: glue_snoc)
  qed
qed

lemma partTexts_bound:
  assumes "set ss \<subseteq> S"
    and "cur = [] \<or> (\<exists>s\<in>S. cur = s @ '' '') \<or> (length cur \<le> m + 1 \<and> (\<exists>x. cur = x @ '' ''))"
  shows "\<forall>t\<in>set (partTexts m ss cur). length t \<le> m \<or> (\<exists>s\<in>S. m < length s \<and> t = trim s)"
  using assms
proof (induction ss arbitrary: cur)
  case Nil
  have "length (trim cur) \<le> m \<or> (\<exists>s\<in>S. m < length s \<and> trim cur = trim s)"
  proof -
    consider "cur = []" | s where "s \<in> S" "cur = s @ '' ''"
      | x where "length cur \<le> m + 1" "cur = x @ '' ''"
      using Nil.prems(2) by blast
    then show ?thesis
    proof cases
      case 1
      then show ?thesis using length_trim [of cur] by simp
    next
      case 2
      then show ?thesis using length_trim [of s] by (cases "m < length s") (auto simp: trim_glued)
    next
      case 3
      then show ?thesis using length_trim [of x] by (simp add: trim_glued)
    qed
  qed
  then show ?case by simp
next
  case (Cons s ss)
  have emit: "length (trim cur) \<le> m \<or> (\<exists>s\<in>S. m < length s \<and> trim cur = trim s)"
  proof -
    consider "cur = []" | s where "s \<in> S" "cur = s @ '' ''"
      | x where "length cur \<le> m + 1" "cur = x @ '' ''"
      using Cons.prems(2) by blast
    then show ?thesis
    proof cases
      case 1
      then show ?thesis using length_trim [of cur] by simp
    next
      case 2
      then show ?thesis using length_trim [of s] by (cases "m < length s") (auto simp: trim_glued)
    next
      case 3
      then show ?thesis using length_trim [of x] by (simp add: trim_glued)
    qed
  qed
  have sS: "s \<in> S" "set ss \<subseteq> S" using Cons.prems(1) by simp_all
  show ?case
  proof (cases "length cur + length s > m \<and> length cur > 0")
    case True
    have "\<forall>t\<in>set (partTexts m ss (s @ '' '')).
            length t \<le> m \<or> (\<exists>s\<in>S. m < length s \<and> t = trim s)"
      using sS by (intro Cons.IH) auto
    then show ?thesis using True emit by simp
  next
    case False
    have "cur @ s @ '' '' = [] \<or> (\<exists>u\<in>S. cur @ s @ '' '' = u @ '' '') \<or>
          (length (cur @ s @ '' '') \<le> m + 1 \<and> (\<exists>x. cur @ s @ '' '' = x @ '' ''))"
    proof (cases "cur = []")
      case True
      then show ?thesis using sS(1) by auto
    next
      case nonempty: False
      then have "length cur + length s \<le> m" using False by simp
      then have "length (cur @ s @ '' '') \<le> m + 1" by simp
      moreover have "\<exists>x. cur @ s @ '' '' = x @ '' ''" by (rule exI [of _ "cur @ s"]) simp
      ultimately show ?thesis by blast
    qed
    then have "\<forall>t\<in>set (partTexts m ss (cur @ s @ '' '')).
            length t \<le> m \<or> (\<exists>s\<in>S. m < length s \<and> t = trim s)"
      using sS(2) by (intro Cons.IH)
    then show ?thesis using False by auto
  qed
qed

lemma finalOK_step:
  assumes "finalOK (s # ss) cur"
  shows "finalOK ss (s @ '' '')" and "finalOK ss (cur @ s @ '' '')"
  using assms by (cases ss; simp add: finalOK_def nonblank_append)+

lemma splitLoop_final_pushed:
  "finalOK ss cur \<Longrightarrow> splitLoop c m ss [] cur idx \<noteq> []"
proof (induction ss arbitrary: cur idx)
  case Nil
  then show ?case by (simp add: finalOK_def nonblank_trim)
next
  case (Cons s ss)
  then show ?case
    using finalOK_step [OF Cons.prems]
    by (simp add: splitLoop_Cons del: splitLoop.simps(2))
qed

lemma splitLoop_single_bare:
  "finalOK ss cur \<Longrightarrow> length (splitLoop c m ss [] cur idx) = 1 \<Longrightarrow>
   speaker (splitLoop c m ss [] cur idx ! 0) =
     (if idx > 1 then partLabel (speaker c) idx else speaker c)"
proof (induction ss arbitrary: cur idx)
  case Nil
  then show ?case by (simp add: finalOK_def nonblank_trim)
next
  case (Cons s ss)
  note ok = finalOK_step [OF Cons.prems(1)]
  show ?case
  proof (cases "length cur + length s > m \<and> length cur > 0")
    case True
    have "splitLoop c m ss [] (s @ '' '') (idx + 1) \<noteq> []"
      using ok(1) by (rule splitLoop_final_pushed)
    then show ?thesis using True Cons.prems(2)
      by (simp add: splitLoop_Cons del: splitLoop.simps(2))
  next
    case False
    then have e: "splitLoop c m (s # ss) [] cur idx = splitLoop c m ss [] (cur @ s @ '' '') idx"
      by (auto simp add: splitLoop_Cons simp del: splitLoop.simps(2))
    show ?thesis using Cons.IH [OF ok(2)] Cons.prems(2) unfolding e by simp
  qed
qed

lemma finalOK_sentencesOf:
  assumes "trim t = t" and "t \<noteq> []"
  shows "finalOK (sentencesOf t) []"
proof -
  have ne: "sentencesOf t \<noteq> []" by (simp add: sentencesOf_def splitSentences_not_Nil)
  have "list_all (\<lambda>s. s \<noteq> [] \<and> trim s = s) (sentencesOf t)"
    using assms by (rule sentences_trimmed)
  then have "trim (last (sentencesOf t)) \<noteq> []"
    using ne last_in_set [OF ne] by (auto simp: list_all_iff)
  then show ?thesis using ne by (cases "sentencesOf t") (simp_all add: finalOK_def nonblank_trim)
qed

lemma splitLargeChunk_single_bare:
  assumes "trim (text c) = text c" and "m < length (text c)"
    and "length (splitLargeChunk c m) = 1"
  shows "speaker (splitLargeChunk c m ! 0) = speaker c"
proof -
  have "text c \<noteq> []" using assms(2) by auto
  then have "finalOK (sentencesOf (text c)) []" using assms(1) by (intro finalOK_sentencesOf)
  then show ?thesis
    using splitLoop_single_bare [of "sentencesOf (text c)" "[]" c m 1] assms(2,3)
    by (simp add: splitLargeChunk_def)
qed

section \<open>A speech of two long sentences\<close>

lemma trimStart_replicate:
  "\<not> isWhitespace a \<Longrightarrow> 0 < n \<Longrightarrow> trimStart (replicate n a @ r) = replicate n a @ r"
  by (cases n) (simp_all add: trimStart_Cons)

lemma dropWhile_ws_replicate:
  "\<not> isWhitespace a \<Longrightarrow> 0 < n \<Longrightarrow>
   dropWhile isWhitespace (replicate n a @ r) = replicate n a @ r"
  by (cases n) simp_all

lemma splitSentences_replicate:
  assumes "\<not> isWhitespace a" and "\<not> isTerminator a"
  shows "0 < n \<Longrightarrow> splitSentences cur b (replicate n a @ rest) =
         splitSentences (cur @ replicate n a) False rest"
proof (induction n arbitrary: cur b)
  case 0
  then show ?case by simp
next
  case (Suc n)
  show ?case
  proof (cases n)
    case 0
    then show ?thesis using assms by simp
  next
    case (Suc k)
    have "splitSentences cur b (replicate (Suc n) a @ rest) =
          splitSentences (cur @ [a]) False (replicate n a @ rest)"
      using assms by simp
    also have "\<dots> = splitSentences ((cur @ [a]) @ replicate n a) False rest"
      using Suc by (intro Suc.IH) simp
    finally show ?thesis by simp
  qed
qed

text \<open>Two sentences of 501 characters each, separated by one whitespace character.\<close>

lemma sentencesOf_two:
  assumes "isWhitespace w"
  shows "sentencesOf (replicate 500 CHR ''a'' @ ''.'' @ [w] @ replicate 500 CHR ''b'' @ ''.'') =
           [replicate 500 CHR ''a'' @ ''.'', replicate 500 CHR ''b'' @ ''.'']"
  using assms
  by (simp add: sentencesOf_def splitSentences_replicate dropWhile_ws_replicate
        isWhitespace_def isTerminator_def)

lemma trim_sentence_a:
  "trim (replicate 500 CHR ''a'' @ ''. '') = replicate 500 CHR ''a'' @ ''.''"
  by (simp add: trim_def trimStart_replicate trimEnd_append trimEnd_def isWhitespace_def)

lemma trim_sentence_b:
  "trim (replicate 500 CHR ''b'' @ ''. '') = replicate 500 CHR ''b'' @ ''.''"
  by (simp add: trim_def trimStart_replicate trimEnd_append trimEnd_def isWhitespace_def)

lemma trim_sentences_ab:
  "trim (replicate 500 CHR ''a'' @ ''.'') = replicate 500 CHR ''a'' @ ''.''"
  "trim (replicate 500 CHR ''b'' @ ''.'') = replicate 500 CHR ''b'' @ ''.''"
  by (rule trim_no_ws, simp add: list_all_iff isWhitespace_def)+

lemma splitLargeChunk_two:
  assumes "isWhitespace w"
    and "text c = replicate 500 CHR ''a'' @ ''.'' @ [w] @ replicate 500 CHR ''b'' @ ''.''"
  shows "splitLargeChunk c 800 =
           [c\<lparr>text := replicate 500 CHR ''a'' @ ''.'', speaker := partLabel (speaker c) 1\<rparr>,
            c\<lparr>text := replicate 500 CHR ''b'' @ ''.'', speaker := partLabel (speaker c) 2\<rparr>]"
proof -
  have "sentencesOf (text c) = [replicate 500 CHR ''a'' @ ''.'', replicate 500 CHR ''b'' @ ''.'']"
    using sentencesOf_two [OF assms(1)] assms(2) by simp
  moreover have "800 < length (text c)" using assms(2) by simp
  ultimately show ?thesis
    using trim_sentence_a trim_sentence_b by (simp add: splitLargeChunk_def numeral_2_eq_2)
qed

section \<open>Lines of the segmenter\<close>

lemma startsWith_hd: "startsWith s p \<Longrightarrow> p \<noteq> [] \<Longrightarrow> s \<noteq> [] \<and> hd s = hd p"
  unfolding startsWith_def by (cases s; cases p) auto

lemma includesStr_hd: "includesStr s p \<Longrightarrow> p \<noteq> [] \<Longrightarrow> hd p \<in> set s"
proof (induction s)
  case Nil
  then show ?case by simp
next
  case (Cons c cs)
  then show ?case using startsWith_hd [of "c # cs" p] by auto
qed

lemma works_upper: "list_all (\<lambda>w. w \<noteq> [] \<and> isUpper (hd w)) shakespeareWorks"
  by (simp add: shakespeareWorks_def isUpper_def)

lemma findWork_no_upper:
  assumes "list_all (\<lambda>c. \<not> isUpper c) t"
  shows "findWork t = None"
proof -
  have "\<not> (t = w \<or> includesStr t w)" if "w \<in> set shakespeareWorks" for w
  proof -
    from that works_upper have w: "w \<noteq> []" "isUpper (hd w)" by (auto simp: list_all_iff)
    then have "hd w \<notin> set t" using assms by (auto simp: list_all_iff)
    then show ?thesis using includesStr_hd [of t w] w(1) by auto
  qed
  then show ?thesis by (auto simp: findWork_def find_None_iff)
qed

lemma findWork_Nil: "findWork [] = None"
  by code_simp

lemma stageKeywords_upper: "list_all (\<lambda>w. w \<noteq> [] \<and> isUpper (hd w)) stageKeywords"
  by (simp add: stageKeywords_def isUpper_def)

lemma processLine_body:
  assumes "line \<noteq> []" and "list_all plainChar line"
    and "\<not> inSonnets st" and "truthy (currentSpeaker st)"
  shows "processLine st line = st\<lparr>currentChunk := currentChunk st @ line @ [newline]\<rparr>"
proof -
  obtain c cs where line: "line = c # cs" using assms(1) by (cases line) auto
  have c: "\<not> isUpper c" "c \<noteq> CHR ''[''" using assms(2) line by (auto simp: plainChar_def)
  have t: "trim line = line"
    using assms(2) by (intro trim_no_ws) (auto simp: list_all_iff plainChar_def)
  have w: "findWork line = None"
    using assms(2) by (intro findWork_no_upper) (auto simp: list_all_iff plainChar_def)
  have "speakerPattern line = None"
    using c by (simp add: speakerPattern_def line)
  then have sp: "isSpeakerLine line = None"
    by (simp add: isSpeakerLine_def t)
  have "\<not> startsWith line k" if "k \<in> set stageKeywords" for k
    using that stageKeywords_upper startsWith_hd [of line k] c line by (auto simp: list_all_iff)
  then have st: "\<not> list_ex (startsWith line) stageKeywords" by (auto simp: list_ex_iff)
  have br: "\<not> isBracketed line" using c by (simp add: isBracketed_def line)
  show ?thesis
    using assms(1,3,4) by (simp add: processLine_def t w sp st br truthy_def)
qed

lemma splitLines_append:
  "newline \<notin> set xs \<Longrightarrow> splitLines cur (xs @ ys) = splitLines (cur @ xs) ys"
  by (induction xs arbitrary: cur) auto

lemma processLine_HAMLET:
  "processLine initialState ''HAMLET.'' = initialState\<lparr>currentSpeaker := Some ''HAMLET''\<rparr>"
  by code_simp

lemma trim_two_lines:
  "trim (replicate 500 CHR ''a'' @ ''.'' @ [newline] @ replicate 500 CHR ''b'' @ ''.'' @ [newline]) =
   replicate 500 CHR ''a'' @ ''.'' @ [newline] @ replicate 500 CHR ''b'' @ ''.''"
  by (simp add: trim_def trimStart_replicate trimEnd_append trimEnd_def isWhitespace_def
        newline_def)

lemma two_lines_raw:
  "processShakespeareText
     (''HAMLET.'' @ [newline] @ replicate 500 CHR ''a'' @ ''.'' @ [newline] @
      replicate 500 CHR ''b'' @ ''.'') =
   [\<lparr>ident = 0, work = ''UNKNOWN'', speaker = Some ''HAMLET (Part 1)'',
      text = replicate 500 CHR ''a'' @ ''.''\<rparr>,
    \<lparr>ident = 0, work = ''UNKNOWN'', speaker = Some ''HAMLET (Part 2)'',
      text = replicate 500 CHR ''b'' @ ''.''\<rparr>]"
proof -
  let ?a = "replicate 500 CHR ''a'' @ ''.''" and ?b = "replicate 500 CHR ''b'' @ ''.''"
  have lines: "splitLines [] (''HAMLET.'' @ [newline] @ replicate 500 CHR ''a'' @ ''.'' @
                 [newline] @ replicate 500 CHR ''b'' @ ''.'') = [''HAMLET.'', ?a, ?b]"
    by (simp add: splitLines_append newline_def)
  let ?s1 = "initialState\<lparr>currentSpeaker := Some ''HAMLET''\<rparr>"
  have s2: "processLine ?s1 ?a = ?s1\<lparr>currentChunk := ?a @ [newline]\<rparr>"
    by (subst processLine_body)
       (simp_all add: list_all_iff plainChar_def isUpper_def isWhitespace_def initialState_def truthy_def)
  let ?s2 = "?s1\<lparr>currentChunk := ?a @ [newline]\<rparr>"
  have s3: "processLine ?s2 ?b = ?s2\<lparr>currentChunk := ?a @ [newline] @ ?b @ [newline]\<rparr>"
    by (subst processLine_body)
       (simp_all add: list_all_iff plainChar_def isUpper_def isWhitespace_def initialState_def truthy_def)
  let ?s3 = "?s2\<lparr>currentChunk := ?a @ [newline] @ ?b @ [newline]\<rparr>"
  have run: "processLines initialState [''HAMLET.'', ?a, ?b] = ?s3"
    by (simp only: processLines.simps processLine_HAMLET s2 s3)
  have ws: "isWhitespace newline" by (simp add: isWhitespace_def newline_def)
  have fin: "finish ?s3 =
     [\<lparr>ident = 0, work = ''UNKNOWN'', speaker = Some ''HAMLET (Part 1)'', text = ?a\<rparr>,
      \<lparr>ident = 0, work = ''UNKNOWN'', speaker = Some ''HAMLET (Part 2)'', text = ?b\<rparr>]"
    using trim_two_lines
    by (simp add: finish_def saveCurrentChunk_def saveFinalSonnet_def
          initialState_def splitLargeChunk_two [OF ws] partLabel_def truthy_def showNat_small)
  show ?thesis
    by (simp only: processShakespeareText_def lines run fin)
qed

lemma trim_ACT_I: "trim ''ACT I'' = ''ACT I''"
  by code_simp

lemma findWork_ACT_I: "findWork ''ACT I'' = None"
  by code_simp

lemma isSpeakerLine_ACT_I: "isSpeakerLine ''ACT I'' = None"
  by code_simp

lemma stage_ACT_I: "list_ex (startsWith ''ACT I'') stageKeywords"
  by code_simp

subsection \<open>Emitted chunks and the current work\<close>

lemma extends_refl: "extends st (chunks st)"
  by (simp add: extends_def)

lemma saveCurrentChunk_extends: "extends st (chunks (saveCurrentChunk st))"
proof (cases "trim (currentChunk st) \<noteq> []")
  case True
  let ?c = "\<lparr>ident = chunkId st, work = currentWork st, speaker = currentSpeaker st,
             text = trim (currentChunk st)\<rparr>"
  have "list_all (\<lambda>p. work p = currentWork st) (splitLargeChunk ?c 800)"
    using splitLargeChunk_inherits [of ?c 800] by (simp add: list_all_iff)
  then show ?thesis using True by (auto simp: extends_def saveCurrentChunk_def)
next
  case False
  then show ?thesis by (simp add: extends_def saveCurrentChunk_def)
qed

lemma saveCurrentChunk_frame:
  "currentWork (saveCurrentChunk st) = currentWork st"
  "inSonnets (saveCurrentChunk st) = inSonnets st"
  "sonnetText (saveCurrentChunk st) = sonnetText st"
  by (simp_all add: saveCurrentChunk_def)

lemma pushSonnet_extends: "extends st (chunks (pushSonnet st))"
  by (simp add: extends_def pushSonnet_def)

lemma pushSonnet_frame: "currentWork (pushSonnet st) = currentWork st"
  by (simp add: pushSonnet_def)

lemma saveFinalSonnet_extends: "extends st (chunks (saveFinalSonnet st))"
  by (simp add: saveFinalSonnet_def pushSonnet_extends extends_refl)

lemma saveFinalSonnet_frame: "currentWork (saveFinalSonnet st) = currentWork st"
  by (simp add: saveFinalSonnet_def pushSonnet_frame)

lemma extends_trans:
  assumes "extends st (chunks st1)" and "currentWork st1 = currentWork st"
    and "extends st1 cs"
  shows "extends st cs"
  using assms by (auto simp: extends_def)

lemma flush_extends: "extends st (chunks (saveFinalSonnet (saveCurrentChunk st)))"
  using saveCurrentChunk_extends saveCurrentChunk_frame(1) saveFinalSonnet_extends
  by (rule extends_trans)

lemma finish_extends: "extends st (finish st)"
  by (simp add: finish_def flush_extends)

lemma processLine_extends: "extends st (chunks (processLine st line))"
  using flush_extends [of st] pushSonnet_extends [of st] saveCurrentChunk_extends [of st]
        extends_refl [of st]
  by (simp add: processLine_def Let_def split: option.split)

lemma processLine_currentWork:
  "currentWork (processLine st line) =
     (case findWork (trim line) of Some w \<Rightarrow> w | None \<Rightarrow> currentWork st)"
  by (simp add: processLine_def Let_def findWork_Nil saveCurrentChunk_frame pushSonnet_frame
        saveFinalSonnet_frame split: option.split)

lemma processLine_title_resets:
  assumes "findWork (trim line) = Some w"
  shows "currentWork (processLine st line) = w \<and> currentChunk (processLine st line) = [] \<and>
         sonnetText (processLine st line) = [] \<and> currentSpeaker (processLine st line) = None \<and>
         sonnetNumber (processLine st line) = None"
proof -
  have "trim line \<noteq> []" using assms findWork_Nil by auto
  then show ?thesis using assms by (simp add: processLine_def)
qed

lemma recognisedTitles_Cons:
  "recognisedTitles (l # ls) =
     (case findWork (trim l) of None \<Rightarrow> recognisedTitles ls | Some w \<Rightarrow> w # recognisedTitles ls)"
  by (simp add: recognisedTitles_def split: option.split)

lemma processLines_currentWork:
  "currentWork (processLines st ls) =
     (if recognisedTitles ls = [] then currentWork st else last (recognisedTitles ls))"
proof (induction ls arbitrary: st)
  case Nil
  then show ?case by (simp add: recognisedTitles_def)
next
  case (Cons l ls)
  then show ?case
    by (simp add: recognisedTitles_Cons processLine_currentWork split: option.split)
qed

lemma stateAfter_currentWork: "currentWork (stateAfter ls n) = nearestTitle (take n ls)"
  by (simp add: stateAfter_def processLines_currentWork nearestTitle_def initialState_def)

lemma processLines_snoc: "processLines st (ls @ [l]) = processLine (processLines st ls) l"
  by (induction ls arbitrary: st) simp_all

lemma stateAfter_Suc:
  "n < length ls \<Longrightarrow> stateAfter ls (Suc n) = processLine (stateAfter ls n) (ls ! n)"
  by (simp add: stateAfter_def take_Suc_conv_app_nth processLines_snoc)

lemma emittedBy_step:
  assumes "n < length ls"
  shows "chunks (stateAfter ls (Suc n)) = chunks (stateAfter ls n) @ emittedBy ls n"
    and "list_all (\<lambda>c. work c = nearestTitle (take n ls)) (emittedBy ls n)"
proof -
  obtain new where new: "chunks (stateAfter ls (Suc n)) = chunks (stateAfter ls n) @ new"
      "list_all (\<lambda>c. work c = currentWork (stateAfter ls n)) new"
    using processLine_extends [of "stateAfter ls n" "ls ! n"] stateAfter_Suc [OF assms]
    by (auto simp: extends_def)
  then have e: "emittedBy ls n = new" by (simp add: emittedBy_def)
  show "chunks (stateAfter ls (Suc n)) = chunks (stateAfter ls n) @ emittedBy ls n"
    using new(1) e by simp
  show "list_all (\<lambda>c. work c = nearestTitle (take n ls)) (emittedBy ls n)"
    using new(2) e by (simp add: stateAfter_currentWork)
qed

lemma chunks_stateAfter:
  "n \<le> length ls \<Longrightarrow> chunks (stateAfter ls n) = concat (map (emittedBy ls) [0..<n])"
proof (induction n)
  case 0
  then show ?case by (simp add: stateAfter_def initialState_def)
next
  case (Suc n)
  then show ?case using emittedBy_step(1) [of n ls] by simp
qed

lemma emittedAtEnd_step:
  shows "finish (stateAfter ls (length ls)) = chunks (stateAfter ls (length ls)) @ emittedAtEnd ls"
    and "list_all (\<lambda>c. work c = nearestTitle ls) (emittedAtEnd ls)"
proof -
  let ?st = "stateAfter ls (length ls)"
  obtain new where new: "finish ?st = chunks ?st @ new"
      "list_all (\<lambda>c. work c = currentWork ?st) new"
    using finish_extends [of ?st] by (auto simp: extends_def)
  then have e: "emittedAtEnd ls = new" by (simp add: emittedAtEnd_def)
  show "finish ?st = chunks ?st @ emittedAtEnd ls" using new(1) e by simp
  show "list_all (\<lambda>c. work c = nearestTitle ls) (emittedAtEnd ls)"
    using new(2) e stateAfter_currentWork [of ls "length ls"] by simp
qed

lemma recognisedTitles_take:
  "recognisedTitles ls = [] \<Longrightarrow> recognisedTitles (take n ls) = []"
  by (auto simp: recognisedTitles_def map_filter_def filter_empty_conv dest: in_set_takeD)

section \<open>Renumbering by the cleaner\<close>

lemma ident_cleanChunks: "map ident (cleanChunks cs) = [0..<length (filter keepChunk cs)]"
proof -
  have "map ident (cleanChunks cs) = map fst (enumerate 0 (filter keepChunk cs))"
    unfolding cleanChunks_def map_map by (rule map_cong) auto
  then show ?thesis by simp
qed

lemma length_cleanChunks: "length (cleanChunks cs) = length (filter keepChunk cs)"
  by (simp add: cleanChunks_def)

lemma content_cleanChunks:
  "map (\<lambda>c. (work c, speaker c, text c)) (cleanChunks cs) =
   map (\<lambda>c. (work c, speaker c, text c)) (filter keepChunk cs)"
proof -
  have "map (\<lambda>c. (work c, speaker c, text c)) (cleanChunks cs) =
        map (\<lambda>c. (work c, speaker c, text c)) (map snd (enumerate 0 (filter keepChunk cs)))"
    unfolding cleanChunks_def map_map by (rule map_cong) auto
  then show ?thesis by simp
qed

lemma work_cleanChunks: "map work (cleanChunks cs) = map work (filter keepChunk cs)"
proof -
  have "map work (cleanChunks cs) = map work (map snd (enumerate 0 (filter keepChunk cs)))"
    unfolding cleanChunks_def map_map by (rule map_cong) auto
  then show ?thesis by simp
qed

lemma distinct_cleanChunks: "distinct (map ident (cleanChunks cs))"
  by (simp add: ident_cleanChunks)

lemma same_ident_not_distinct:
  assumes "list_all (\<lambda>p. ident p = i) ps" and "2 \<le> length ps"
  shows "\<not> distinct (map ident ps)"
proof -
  obtain p q r where "ps = p # q # r" using assms(2) by (cases ps; cases "tl ps") auto
  then show ?thesis using assms(1) by simp
qed

section \<open>Roman numerals in speaker cues\<close>

lemma ivx_facts:
  "c \<in> set ''IVX'' \<Longrightarrow> isUpper c \<and> \<not> isWhitespace c \<and> c \<noteq> CHR ''.''"
  by (auto simp: isUpper_def isWhitespace_def)

lemma speakerTail_ivx:
  "list_all (\<lambda>c. c \<in> set ''IVX'') cs \<Longrightarrow> speakerTail cs = (cs = [])"
  using ivx_facts by (cases cs) (auto simp: speakerTail_def)

lemma speakerLazy_ivx:
  "list_all (\<lambda>c. c \<in> set ''IVX'') cs \<Longrightarrow>
   speakerLazy g cs = (if cs = [] then None else Some (g @ cs))"
proof (induction cs arbitrary: g)
  case Nil
  then show ?case by simp
next
  case (Cons c cs)
  then have "speakerClass c" using ivx_facts by (simp add: speakerClass_def)
  moreover have "speakerTail cs = (cs = [])" using Cons.prems by (simp add: speakerTail_ivx)
  ultimately show ?case using Cons by simp
qed

lemma speakerPattern_ivx:
  assumes "list_all (\<lambda>c. c \<in> set ''IVX'') t" and "speakerPattern t = Some g"
  shows "g = t"
proof (cases t)
  case Nil
  then show ?thesis using assms by (simp add: speakerPattern_def)
next
  case (Cons c cs)
  then have "speakerLazy [c] cs = (if cs = [] then None else Some ([c] @ cs))"
    using assms(1) by (simp add: speakerLazy_ivx)
  then show ?thesis using assms(2) Cons by (auto simp: speakerPattern_def split: if_splits)
qed

section \<open>Properties of the line classifier\<close>

text \<open>
  C2 (sonnet-number classifier). The specification says that a line which, once trimmed,
  is nothing but decimal digits is matched by \<open>isSonnetNumber\<close>, and that no other line
  is. The pattern of the script asks for a backslash before and after the digits: the
  line \<open>18\<close> is not matched, with or without spaces around it, and the line made of a
  backslash, \<open>18\<close> and a backslash is.
\<close>

theorem isSonnetNumber_plain_digits:
  "isSonnetNumber ''18'' = None \<and>
   isSonnetNumber '' 18 '' = None \<and>
   isSonnetNumber ([backslash] @ ''18'' @ [backslash]) = Some ''18''"
  by code_simp

text \<open>No line of digits is matched at all.\<close>

lemma isSonnetNumber_digits:
  assumes "allOf isDigit (trim line)"
  shows "isSonnetNumber line = None"
proof -
  obtain c r where t: "trim line = c # r" "isDigit c"
    using assms by (cases "trim line") (auto simp: allOf_def)
  then have "c \<noteq> backslash" by (auto simp: isDigit_def backslash_def)
  then show ?thesis using t(1) by (simp add: isSonnetNumber_def)
qed

text \<open>
  The test of the script, \<^verbatim>\<open>/^[IVX]+$/\<close>, covers the numeral letters \<open>I\<close>, \<open>V\<close> and
  \<open>X\<close>: a line made only of them is never a speaker cue.
\<close>

lemma isSpeakerLine_ivx:
  assumes "trim line \<noteq> []" and "list_all (\<lambda>c. c \<in> set ''IVX'') (trim line)"
  shows "isSpeakerLine line = None"
proof (cases "speakerPattern (trim line)")
  case None
  then show ?thesis by (simp add: isSpeakerLine_def)
next
  case (Some g)
  then have g: "g = trim line" using assms(2) by (rule speakerPattern_ivx[rotated])
  have "list_all (\<lambda>c. \<not> isWhitespace c) (trim line)"
    using assms(2) ivx_facts by (auto simp: list_all_iff)
  then have "trim g = trim line" using g by (simp add: trim_no_ws)
  moreover have "\<not> isValidSpeaker (trim line)"
    using assms by (simp add: isValidSpeaker_def allOf_def)
  ultimately show ?thesis using Some by (simp add: isSpeakerLine_def)
qed

lemma isSpeakerLine_ivx_example:
  "trim ''  XIV '' = ''XIV'' \<and> isSpeakerLine ''  XIV '' = None"
proof -
  have t: "trim ''  XIV '' = ''XIV''" by code_simp
  have "isSpeakerLine ''  XIV '' = None"
    by (rule isSpeakerLine_ivx) (simp_all add: t)
  with t show ?thesis by simp
qed

text \<open>
  C8 (Roman numerals are no speaker cue). The specification says that a line which, once
  trimmed, consists purely of Roman numerals is never classified as a speaker cue, and
  the script's comment on its test reads "Not just roman numerals". The test looks at the
  letters \<open>I\<close>, \<open>V\<close> and \<open>X\<close> only, so numerals written with \<open>L\<close>, \<open>C\<close>, \<open>D\<close> or
  \<open>M\<close> pass it: the lines \<open>LX\<close> (60), \<open>CD\<close> (400) and \<open>MDCL\<close> (1650) are returned as
  speakers.
\<close>

theorem isSpeakerLine_roman_accepted:
  "isSpeakerLine ''LX'' = Some ''LX'' \<and>
   isSpeakerLine ''CD'' = Some ''CD'' \<and>
   isSpeakerLine ''MDCL'' = Some ''MDCL''"
  by code_simp

section \<open>Properties of the segmenter\<close>

text \<open>
  C1 (sonnet scenario). For the text made of the lines \<open>THE SONNETS\<close>, \<open>18\<close> and
  \<open>Shall I compare thee...\<close> the specification expects one chunk with work
  \<open>THE SONNETS\<close>, speaker \<open>SONNET 18\<close> and the third line as text. The script returns
  no chunk: the line \<open>18\<close> starts no sonnet, so the third line is not kept.
\<close>

theorem sonnet_scenario_no_chunk:
  "processShakespeareText
     (''THE SONNETS'' @ [newline] @ ''18'' @ [newline] @ ''Shall I compare thee...'') = [] \<and>
   cleanChunks (processShakespeareText
     (''THE SONNETS'' @ [newline] @ ''18'' @ [newline] @ ''Shall I compare thee...'')) = []"
  by code_simp

text \<open>
  C9 (a stage direction inside dialogue). When the segmenter is not in the sonnets, a
  speaker is active and the chunk accumulator is not empty, the line \<open>ACT I\<close> leaves the
  whole state as it is: no chunk is emitted, and the current speaker and the accumulated
  text are unchanged.
\<close>

theorem act_line_ignored:
  assumes "\<not> inSonnets st" and "currentSpeaker st = Some sp" and "currentChunk st \<noteq> []"
  shows "processLine st ''ACT I'' = st \<and>
         chunks (processLine st ''ACT I'') = chunks st \<and>
         currentSpeaker (processLine st ''ACT I'') = Some sp \<and>
         currentChunk (processLine st ''ACT I'') = currentChunk st"
  using assms
  by (simp add: processLine_def trim_ACT_I findWork_ACT_I isSpeakerLine_ACT_I stage_ACT_I
        truthy_def)

theorem act_line_ignored_witness:
  "processLine
     \<lparr>chunks = [], currentWork = ''UNKNOWN'', currentSpeaker = Some ''HAMLET'',
      currentChunk = ''To be, or not to be.'' @ [newline], chunkId = 0, inSonnets = False,
      sonnetNumber = None, sonnetText = []\<rparr> ''ACT I'' =
     \<lparr>chunks = [], currentWork = ''UNKNOWN'', currentSpeaker = Some ''HAMLET'',
      currentChunk = ''To be, or not to be.'' @ [newline], chunkId = 0, inSonnets = False,
      sonnetNumber = None, sonnetText = []\<rparr>"
  using act_line_ignored [of
     "\<lparr>chunks = [], currentWork = ''UNKNOWN'', currentSpeaker = Some ''HAMLET'',
       currentChunk = ''To be, or not to be.'' @ [newline], chunkId = 0, inSonnets = False,
       sonnetNumber = None, sonnetText = []\<rparr>" "''HAMLET''"]
  by simp

text \<open>
  C7 (work attribution). Let \<open>ls\<close> be the lines of the input text. The output of
  \<open>processShakespeareText\<close> is made of the chunks emitted while each line is processed,
  in order, followed by the chunks emitted after the last line. A chunk emitted while
  line \<open>n\<close> is processed carries the title recognised last among the lines before
  \<open>n\<close>, or \<open>UNKNOWN\<close> when none was recognised; a chunk emitted after the last line
  carries the title recognised last in the whole text, or \<open>UNKNOWN\<close>. A title line
  leaves both text accumulators empty, so the lines of a chunk all come after the title it
  carries. A text in which no title is recognised is processed like any other, and all
  its chunks, before and after cleaning, carry \<open>UNKNOWN\<close>.
\<close>

theorem work_attribution:
  assumes "ls = splitLines [] t"
  shows "processShakespeareText t = concat (map (emittedBy ls) [0..<length ls]) @ emittedAtEnd ls \<and>
         (\<forall>n<length ls. list_all (\<lambda>c. work c = nearestTitle (take n ls)) (emittedBy ls n)) \<and>
         list_all (\<lambda>c. work c = nearestTitle ls) (emittedAtEnd ls) \<and>
         (\<forall>n<length ls. findWork (trim (ls ! n)) \<noteq> None \<longrightarrow>
            currentChunk (stateAfter ls (Suc n)) = [] \<and> sonnetText (stateAfter ls (Suc n)) = []) \<and>
         (recognisedTitles ls = [] \<longrightarrow>
            list_all (\<lambda>c. work c = ''UNKNOWN'') (processShakespeareText t) \<and>
            list_all (\<lambda>c. work c = ''UNKNOWN'') (cleanChunks (processShakespeareText t)))"
proof -
  have out: "processShakespeareText t = finish (stateAfter ls (length ls))"
    using assms by (simp add: processShakespeareText_def stateAfter_def)
  have a: "processShakespeareText t =
             concat (map (emittedBy ls) [0..<length ls]) @ emittedAtEnd ls"
    using out emittedAtEnd_step(1) [of ls] chunks_stateAfter [of "length ls" ls] by simp
  have b: "\<forall>n<length ls. list_all (\<lambda>c. work c = nearestTitle (take n ls)) (emittedBy ls n)"
    using emittedBy_step(2) by blast
  have c: "list_all (\<lambda>c. work c = nearestTitle ls) (emittedAtEnd ls)"
    by (rule emittedAtEnd_step(2))
  have d: "\<forall>n<length ls. findWork (trim (ls ! n)) \<noteq> None \<longrightarrow>
            currentChunk (stateAfter ls (Suc n)) = [] \<and> sonnetText (stateAfter ls (Suc n)) = []"
    using processLine_title_resets stateAfter_Suc by auto
  have e: "list_all (\<lambda>c. work c = ''UNKNOWN'') (processShakespeareText t) \<and>
           list_all (\<lambda>c. work c = ''UNKNOWN'') (cleanChunks (processShakespeareText t))"
    if none: "recognisedTitles ls = []"
  proof -
    have "nearestTitle (take n ls) = ''UNKNOWN''" for n
      using recognisedTitles_take [OF none] by (simp add: nearestTitle_def)
    moreover have "nearestTitle ls = ''UNKNOWN''" using none by (simp add: nearestTitle_def)
    ultimately have raw: "list_all (\<lambda>c. work c = ''UNKNOWN'') (processShakespeareText t)"
      using a b c by (auto simp: list_all_iff)
    then have "\<forall>w\<in>set (map work (cleanChunks (processShakespeareText t))). w = ''UNKNOWN''"
      unfolding work_cleanChunks by (auto simp: list_all_iff)
    then show ?thesis using raw by (auto simp: list_all_iff)
  qed
  from a b c d e show ?thesis by blast
qed

theorem work_attribution_witness:
  "map work (processShakespeareText
     (''IAGO.'' @ [newline] @ ''I am.'' @ [newline] @ ''CYMBELINE'' @ [newline] @
      ''IMOGEN.'' @ [newline] @ ''Hark!'')) = [''UNKNOWN'', ''CYMBELINE''] \<and>
   map work (emittedBy (splitLines []
     (''IAGO.'' @ [newline] @ ''I am.'' @ [newline] @ ''CYMBELINE'' @ [newline] @
      ''IMOGEN.'' @ [newline] @ ''Hark!'')) 2) = [''UNKNOWN''] \<and>
   list_all (\<lambda>c. work c = ''CYMBELINE'') (emittedAtEnd (splitLines []
     (''IAGO.'' @ [newline] @ ''I am.'' @ [newline] @ ''CYMBELINE'' @ [newline] @
      ''IMOGEN.'' @ [newline] @ ''Hark!'')))"
proof -
  let ?t = "''IAGO.'' @ [newline] @ ''I am.'' @ [newline] @ ''CYMBELINE'' @
            [newline] @ ''IMOGEN.'' @ [newline] @ ''Hark!''"
  have ls: "splitLines [] ?t =
      [''IAGO.'', ''I am.'', ''CYMBELINE'', ''IMOGEN.'', ''Hark!'']"
    by code_simp
  have nt: "nearestTitle (splitLines [] ?t) = ''CYMBELINE''"
    unfolding ls by code_simp
  have out: "map work (processShakespeareText ?t) = [''UNKNOWN'', ''CYMBELINE'']"
    by code_simp
  have e2: "map work (emittedBy (splitLines [] ?t) 2) = [''UNKNOWN'']"
    unfolding ls by code_simp
  have "list_all (\<lambda>c. work c = nearestTitle (splitLines [] ?t)) (emittedAtEnd (splitLines [] ?t))"
    using work_attribution [of "splitLines [] ?t" ?t] by simp
  then have "list_all (\<lambda>c. work c = ''CYMBELINE'') (emittedAtEnd (splitLines [] ?t))"
    unfolding nt .
  with out e2 show ?thesis by simp
qed

section \<open>Properties of the chunk splitter\<close>

text \<open>
  C3 (labels of the parts). The specification says that the first part keeps the bare
  speaker and that the suffix \<open>(Part N)\<close> starts with \<open>N = 2\<close> at the second part.
  The script numbers the parts from 1: a part sealed inside the loop gets the current part
  number, which starts at 1, and only the part added after the loop is left bare when
  nothing was sealed before it. Amended: for every chunk with a non-null, non-empty
  speaker whose text exceeds 800 characters, every part inherits the work of the source
  chunk; when two or more parts are returned, the \<open>k\<close>-th part (\<open>k = 1, 2, ...\<close>)
  carries the speaker suffixed with \<open>(Part k)\<close>, the first part included; when a
  single part is returned, it carries the bare speaker or the speaker suffixed with
  \<open>(Part 1)\<close>, and the bare speaker whenever the text of the chunk is trimmed, as
  every text that the segmenter hands to the splitter is.
\<close>

theorem splitLargeChunk_labels:
  assumes "speaker c = Some sp" and "sp \<noteq> []" and "800 < length (text c)"
  shows "list_all (\<lambda>p. work p = work c) (splitLargeChunk c 800) \<and>
         (2 \<le> length (splitLargeChunk c 800) \<longrightarrow>
            (\<forall>k<length (splitLargeChunk c 800).
               speaker (splitLargeChunk c 800 ! k) =
                 Some (sp @ '' (Part '' @ showNat (k + 1) @ '')''))) \<and>
         (length (splitLargeChunk c 800) = 1 \<longrightarrow>
            speaker (splitLargeChunk c 800 ! 0) = Some sp \<or>
            speaker (splitLargeChunk c 800 ! 0) = Some (sp @ '' (Part 1)'')) \<and>
         (length (splitLargeChunk c 800) = 1 \<and> trim (text c) = text c \<longrightarrow>
            speaker (splitLargeChunk c 800 ! 0) = Some sp)"
proof -
  let ?ps = "splitLargeChunk c 800"
  have ps: "?ps = splitLoop c 800 (sentencesOf (text c)) [] [] 1"
    using assms(3) by (simp add: splitLargeChunk_def)
  have lab: "labelled (Some sp) 1 ?ps"
    using splitLoop_labelled [of 1 c 800 "sentencesOf (text c)" "[]"] assms(1) ps by simp
  have pl: "\<And>k. partLabel (Some sp) k = Some (sp @ '' (Part '' @ showNat k @ '')'')"
    using assms(2) by (simp add: partLabel_def truthy_def)
  have w: "list_all (\<lambda>p. work p = work c) ?ps"
    using splitLargeChunk_inherits [of c 800] by (simp add: list_all_iff)
  have many: "2 \<le> length ?ps \<longrightarrow>
      (\<forall>k<length ?ps. speaker (?ps ! k) = Some (sp @ '' (Part '' @ showNat (k + 1) @ '')''))"
    using lab pl unfolding labelled_def by auto
  have one: "length ?ps = 1 \<longrightarrow>
      speaker (?ps ! 0) = Some sp \<or> speaker (?ps ! 0) = Some (sp @ '' (Part 1)'')"
  proof
    assume "length ?ps = 1"
    then have "speaker (?ps ! 0) = partLabel (Some sp) 1 \<or> speaker (?ps ! 0) = Some sp"
      using lab unfolding labelled_def by auto
    then show "speaker (?ps ! 0) = Some sp \<or> speaker (?ps ! 0) = Some (sp @ '' (Part 1)'')"
      using pl [of 1] by (auto simp: showNat_1)
  qed
  have bare: "length ?ps = 1 \<and> trim (text c) = text c \<longrightarrow> speaker (?ps ! 0) = Some sp"
    using splitLargeChunk_single_bare [of c 800] assms(1,3) by simp
  from w many one bare show ?thesis by blast
qed

theorem splitLargeChunk_labels_counterexample:
  "map speaker (splitLargeChunk
     \<lparr>ident = 0, work = ''UNKNOWN'', speaker = Some ''HAMLET'',
      text = replicate 500 CHR ''a'' @ ''.'' @ '' '' @ replicate 500 CHR ''b'' @ ''.''\<rparr> 800) =
   [Some ''HAMLET (Part 1)'', Some ''HAMLET (Part 2)'']"
proof -
  have "isWhitespace CHR '' ''" by (simp add: isWhitespace_def)
  then show ?thesis
    by (subst splitLargeChunk_two [where w = "CHR '' ''"])
       (simp_all add: partLabel_def truthy_def showNat_small)
qed

theorem splitLargeChunk_labels_witness:
  "speaker (splitLargeChunk
     \<lparr>ident = 0, work = ''UNKNOWN'', speaker = Some ''HAMLET'',
      text = replicate 500 CHR ''a'' @ ''.'' @ '' '' @ replicate 500 CHR ''b'' @ ''.''\<rparr> 800 ! 1) =
   Some ''HAMLET (Part 2)''"
proof -
  let ?c = "\<lparr>ident = 0, work = ''UNKNOWN'', speaker = Some ''HAMLET'',
      text = replicate 500 CHR ''a'' @ ''.'' @ '' '' @ replicate 500 CHR ''b'' @ ''.''\<rparr>"
  have ws: "isWhitespace CHR '' ''" by (simp add: isWhitespace_def)
  have len: "length (splitLargeChunk ?c 800) = 2"
    by (subst splitLargeChunk_two [where w = "CHR '' ''"]) (simp_all add: ws)
  have "2 \<le> length (splitLargeChunk ?c 800) \<longrightarrow>
          (\<forall>k<length (splitLargeChunk ?c 800).
             speaker (splitLargeChunk ?c 800 ! k) =
               Some (''HAMLET'' @ '' (Part '' @ showNat (k + 1) @ '')''))"
    using splitLargeChunk_labels [of ?c "''HAMLET''"] by simp
  then have "speaker (splitLargeChunk ?c 800 ! 1) =
               Some (''HAMLET'' @ '' (Part '' @ showNat (1 + 1) @ '')'')"
    using len by simp
  then show ?thesis by (simp add: showNat_small)
qed

text \<open>A text that ends in whitespace after a terminator: one part, labelled as part 1.\<close>

lemma splitLargeChunk_single_labelled:
  "map speaker (splitLargeChunk
     \<lparr>ident = 0, work = ''UNKNOWN'', speaker = Some ''HAMLET'',
      text = replicate 800 CHR ''a'' @ ''. ''\<rparr> 800) = [Some ''HAMLET (Part 1)'']"
proof -
  have s: "sentencesOf (replicate 800 CHR ''a'' @ ''. '') = [replicate 800 CHR ''a'' @ ''.'', []]"
    by (simp add: sentencesOf_def splitSentences_replicate isWhitespace_def isTerminator_def)
  have t: "trim (replicate 800 CHR ''a'' @ ''. '') = replicate 800 CHR ''a'' @ ''.''"
    by (simp add: trim_def trimStart_replicate trimEnd_append trimEnd_def isWhitespace_def)
  have u: "trim '' '' = []" by (simp add: trim_def trimStart_def trimEnd_def isWhitespace_def)
  show ?thesis
    using t u by (simp add: splitLargeChunk_def s partLabel_def truthy_def showNat_small)
qed

text \<open>
  C4 (size of the parts and sentence sequence). For every chunk whose text is longer than
  800 characters, each part returned by \<open>splitLargeChunk\<close> has a text of at most 800
  characters, or its text is one sentence of the original text that is longer than 800
  characters, trimmed. The sentences of the parts, part after part, are the sentences of
  the original text up to spacing: each trimmed, and without the empty ones. When the
  text of the chunk is trimmed, as every text that the segmenter hands to the splitter is,
  its sentences are non-empty and trimmed already, so the oversize sentence is kept as
  it is and the two sentence sequences are equal.
\<close>

theorem splitLargeChunk_sentences:
  assumes "800 < length (text c)"
  shows "list_all (\<lambda>p. length (text p) \<le> 800 \<or>
            list_ex (\<lambda>s. 800 < length s \<and> text p = trim s) (sentencesOf (text c)))
           (splitLargeChunk c 800) \<and>
         concat (map (\<lambda>p. sentencesOf (text p)) (splitLargeChunk c 800)) =
           normalise (sentencesOf (text c)) \<and>
         (trim (text c) = text c \<longrightarrow>
            list_all (\<lambda>s. s \<noteq> [] \<and> trim s = s) (sentencesOf (text c)) \<and>
            normalise (sentencesOf (text c)) = sentencesOf (text c))"
proof -
  let ?S = "sentencesOf (text c)"
  have ps: "map text (splitLargeChunk c 800) = partTexts 800 ?S []"
    using assms by (simp add: splitLargeChunk_def text_splitLoop)
  have "\<forall>t\<in>set (partTexts 800 ?S []).
          length t \<le> 800 \<or> (\<exists>s\<in>set ?S. 800 < length s \<and> t = trim s)"
    by (rule partTexts_bound) simp_all
  then have "\<forall>t\<in>set (map text (splitLargeChunk c 800)).
          length t \<le> 800 \<or> (\<exists>s\<in>set ?S. 800 < length s \<and> t = trim s)"
    unfolding ps .
  then have a: "list_all (\<lambda>p. length (text p) \<le> 800 \<or>
            list_ex (\<lambda>s. 800 < length s \<and> text p = trim s) ?S) (splitLargeChunk c 800)"
    by (simp add: list_all_iff list_ex_iff)
  have "concat (map sentencesOf (partTexts 800 ?S (glue []))) = normalise ([] @ ?S)"
    by (rule sentences_partTexts) (simp add: wellFormed_lead_sentencesOf)
  then have "concat (map sentencesOf (map text (splitLargeChunk c 800))) = normalise ?S"
    unfolding ps by (simp add: glue_Nil)
  then have b: "concat (map (\<lambda>p. sentencesOf (text p)) (splitLargeChunk c 800)) = normalise ?S"
    by (simp add: comp_def)
  have c: "list_all (\<lambda>s. s \<noteq> [] \<and> trim s = s) ?S \<and> normalise ?S = ?S"
    if "trim (text c) = text c"
  proof -
    have "text c \<noteq> []" using assms by auto
    with that have "list_all (\<lambda>s. s \<noteq> [] \<and> trim s = s) ?S" by (rule sentences_trimmed)
    then show ?thesis using normalise_trimmed by blast
  qed
  from a b c show ?thesis by blast
qed

theorem splitLargeChunk_sentences_witness:
  "concat (map (\<lambda>p. sentencesOf (text p)) (splitLargeChunk
     \<lparr>ident = 0, work = ''UNKNOWN'', speaker = Some ''HAMLET'',
      text = replicate 500 CHR ''a'' @ ''.'' @ '' '' @ replicate 500 CHR ''b'' @ ''.''\<rparr> 800)) =
   [replicate 500 CHR ''a'' @ ''.'', replicate 500 CHR ''b'' @ ''.'']"
proof -
  let ?c = "\<lparr>ident = 0, work = ''UNKNOWN'', speaker = Some ''HAMLET'',
      text = replicate 500 CHR ''a'' @ ''.'' @ '' '' @ replicate 500 CHR ''b'' @ ''.''\<rparr>"
  have len: "800 < length (text ?c)" by simp
  have s: "sentencesOf (text ?c) = [replicate 500 CHR ''a'' @ ''.'', replicate 500 CHR ''b'' @ ''.'']"
    using sentencesOf_two [OF space_ws] by simp
  have "concat (map (\<lambda>p. sentencesOf (text p)) (splitLargeChunk ?c 800)) =
        normalise (sentencesOf (text ?c))"
    using splitLargeChunk_sentences [OF len] by (rule conjunct1 [OF conjunct2])
  also have "\<dots> = [replicate 500 CHR ''a'' @ ''.'', replicate 500 CHR ''b'' @ ''.'']"
    unfolding s by (simp add: normalise_def trim_sentences_ab)
  finally show ?thesis .
qed

text \<open>The exception is real: one sentence of 900 characters stays one part of 900.\<close>

lemma splitLargeChunk_long_sentence:
  "map text (splitLargeChunk
     \<lparr>ident = 0, work = ''UNKNOWN'', speaker = Some ''HAMLET'',
      text = replicate 900 CHR ''a''\<rparr> 800) = [replicate 900 CHR ''a'']"
proof -
  have s: "sentencesOf (replicate 900 CHR ''a'') = [replicate 900 CHR ''a'']"
    using splitSentences_replicate [of "CHR ''a''" 900 "[]" False "[]"]
    by (simp add: sentencesOf_def isWhitespace_def isTerminator_def)
  have t: "trim (replicate 900 CHR ''a'' @ '' '') = replicate 900 CHR ''a''"
    using trim_snoc_ws [OF space_ws, of "replicate 900 CHR ''a''"]
    by (simp add: trim_no_ws list_all_iff isWhitespace_def)
  show ?thesis using t by (simp add: splitLargeChunk_def s)
qed

section \<open>Properties of the cleaner and of the ids\<close>

text \<open>
  C5 (degenerate chunks). The specification says that \<open>cleanChunks\<close> drops a chunk whose
  text is one bracketed stage direction, or only punctuation and whitespace, or only
  digits and Roman numerals, whatever its length. The three patterns of the script ask
  for backslashes in the text, so such chunks of ten characters or more are kept.
\<close>

theorem cleanChunks_keeps_degenerate:
  "cleanChunks
     [\<lparr>ident = 0, work = ''UNKNOWN'', speaker = Some ''HAMLET'',
       text = ''[Exit all the players]''\<rparr>,
      \<lparr>ident = 1, work = ''UNKNOWN'', speaker = Some ''HAMLET'', text = ''.......... ''\<rparr>,
      \<lparr>ident = 2, work = ''UNKNOWN'', speaker = Some ''HAMLET'', text = ''1234567890''\<rparr>,
      \<lparr>ident = 3, work = ''UNKNOWN'', speaker = Some ''HAMLET'', text = ''XXXVIIIXIV''\<rparr>] =
     [\<lparr>ident = 0, work = ''UNKNOWN'', speaker = Some ''HAMLET'',
       text = ''[Exit all the players]'', textLength = 22, wordCount = 4\<rparr>,
      \<lparr>ident = 1, work = ''UNKNOWN'', speaker = Some ''HAMLET'', text = ''.......... '',
       textLength = 11, wordCount = 0\<rparr>,
      \<lparr>ident = 2, work = ''UNKNOWN'', speaker = Some ''HAMLET'', text = ''1234567890'',
       textLength = 10, wordCount = 1\<rparr>,
      \<lparr>ident = 3, work = ''UNKNOWN'', speaker = Some ''HAMLET'', text = ''XXXVIIIXIV'',
       textLength = 10, wordCount = 1\<rparr>]"
  by code_simp

text \<open>
  In general a chunk of ten characters or more is kept unless its text starts with a
  backslash or with one of the four header words.
\<close>

lemma keepChunk_without_backslash:
  assumes "10 \<le> length (text c)" and "hd (text c) \<noteq> backslash"
    and "\<not> list_ex (startsWith (text c)) [''ACT'', ''SCENE'', ''EPILOGUE'', ''PROLOGUE'']"
  shows "keepChunk c"
proof -
  obtain x r where t: "text c = x # r" "x \<noteq> backslash"
    using assms(1,2) by (cases "text c") auto
  then have "\<not> stageDirectionPattern (text c)" "\<not> punctuationPattern (text c)"
      "\<not> numeralPattern (text c)"
    by (simp_all add: stageDirectionPattern_def punctuationPattern_def numeralPattern_def)
  then show ?thesis using assms(1,3) by (simp add: keepChunk_def)
qed

text \<open>
  C6 (contiguous ids). For every list of chunks, the ids of the chunks that
  \<open>cleanChunks\<close> returns are \<open>0, 1, ..., n - 1\<close>, \<open>n\<close> being their number; the
  survivors are the chunks that pass the filter, in their original order, and the ids
  they had before play no part.
\<close>

theorem cleanChunks_ids:
  "map ident (cleanChunks cs) = [0..<length (cleanChunks cs)] \<and>
   map (\<lambda>c. (work c, speaker c, text c)) (cleanChunks cs) =
     map (\<lambda>c. (work c, speaker c, text c)) (filter keepChunk cs)"
  using ident_cleanChunks length_cleanChunks content_cleanChunks by simp

theorem cleanChunks_ids_witness:
  "map ident (cleanChunks
     [\<lparr>ident = 7, work = ''UNKNOWN'', speaker = Some ''HAMLET'', text = ''To be, or not to be.''\<rparr>,
      \<lparr>ident = 7, work = ''UNKNOWN'', speaker = Some ''OPHELIA'', text = ''My lord?''\<rparr>,
      \<lparr>ident = 9, work = ''UNKNOWN'', speaker = Some ''HAMLET'', text = ''Get thee to a nunnery.''\<rparr>])
   = [0, 1]"
proof -
  let ?cs = "[\<lparr>ident = 7, work = ''UNKNOWN'', speaker = Some ''HAMLET'', text = ''To be, or not to be.''\<rparr>,
      \<lparr>ident = 7, work = ''UNKNOWN'', speaker = Some ''OPHELIA'', text = ''My lord?''\<rparr>,
      \<lparr>ident = 9, work = ''UNKNOWN'', speaker = Some ''HAMLET'', text = ''Get thee to a nunnery.''\<rparr>]"
  have n: "length (cleanChunks ?cs) = 2" by code_simp
  have "map ident (cleanChunks ?cs) = [0..<length (cleanChunks ?cs)]"
    using cleanChunks_ids [of ?cs] by (rule conjunct1)
  then show ?thesis unfolding n by (simp add: upt_conv_Cons)
qed

text \<open>
  C10 (ids before cleaning). Every part that \<open>splitLargeChunk\<close> returns carries the id
  of the source chunk, so two or more parts share one id and the ids of the raw chunk
  list are not distinct: the speech of two sentences of 501 characters below yields the
  raw ids \<open>0, 0\<close>. The ids that \<open>cleanChunks\<close> assigns are always distinct.
\<close>

theorem split_parts_share_id:
  "list_all (\<lambda>p. ident p = ident c) (splitLargeChunk c maxSize) \<and>
   (2 \<le> length (splitLargeChunk c maxSize) \<longrightarrow>
      \<not> distinct (map ident (splitLargeChunk c maxSize))) \<and>
   map ident (processShakespeareText
     (''HAMLET.'' @ [newline] @ replicate 500 CHR ''a'' @ ''.'' @ [newline] @
      replicate 500 CHR ''b'' @ ''.'')) = [0, 0] \<and>
   \<not> distinct (map ident (processShakespeareText
     (''HAMLET.'' @ [newline] @ replicate 500 CHR ''a'' @ ''.'' @ [newline] @
      replicate 500 CHR ''b'' @ ''.''))) \<and>
   distinct (map ident (cleanChunks cs))"
proof -
  have a: "list_all (\<lambda>p. ident p = ident c) (splitLargeChunk c maxSize)"
    using splitLargeChunk_inherits [of c maxSize] by (simp add: list_all_iff)
  then have b: "2 \<le> length (splitLargeChunk c maxSize) \<longrightarrow>
      \<not> distinct (map ident (splitLargeChunk c maxSize))"
    using same_ident_not_distinct by blast
  have c: "map ident (processShakespeareText
     (''HAMLET.'' @ [newline] @ replicate 500 CHR ''a'' @ ''.'' @ [newline] @
      replicate 500 CHR ''b'' @ ''.'')) = [0, 0]"
    unfolding two_lines_raw by simp
  have d: "\<not> distinct (map ident (processShakespeareText
     (''HAMLET.'' @ [newline] @ replicate 500 CHR ''a'' @ ''.'' @ [newline] @
      replicate 500 CHR ''b'' @ ''.'')))"
    unfolding c by simp
  show ?thesis
    by (intro conjI) (rule a b c d distinct_cleanChunks)+
qed

theorem split_parts_share_id_witness:
  "\<not> distinct (map ident (splitLargeChunk
     \<lparr>ident = 4, work = ''UNKNOWN'', speaker = Some ''HAMLET'',
      text = replicate 500 CHR ''a'' @ ''.'' @ '' '' @ replicate 500 CHR ''b'' @ ''.''\<rparr> 800))"
proof -
  let ?c = "\<lparr>ident = 4, work = ''UNKNOWN'', speaker = Some ''HAMLET'',
      text = replicate 500 CHR ''a'' @ ''.'' @ '' '' @ replicate 500 CHR ''b'' @ ''.''\<rparr>"
  have ws: "isWhitespace CHR '' ''" by (simp add: isWhitespace_def)
  have len: "length (splitLargeChunk ?c 800) = 2"
    by (subst splitLargeChunk_two [where w = "CHR '' ''"]) (simp_all add: ws)
  have "2 \<le> length (splitLargeChunk ?c 800) \<longrightarrow>
          \<not> distinct (map ident (splitLargeChunk ?c 800))"
    using split_parts_share_id [of ?c 800] by (rule conjunct1 [OF conjunct2])
  then show ?thesis using len by simp
qed

end
